theory Spec2Isabelle
  imports Main "HOL-Library.Product_Lexorder"
begin

section \<open>Data model of \<open>PathfindingGrid\<close>\<close>

text \<open>
  A position is the JavaScript object \<open>{row, col}\<close>. The maps and sets of the class are keyed
  by the string \<open>`${row},${col}`\<close>; two integer positions give the same string exactly when
  they agree on both numbers, so a key is modelled as the pair of the two integers.
  Rows and columns are loop indices and sums of them with \<open>-1\<close>, \<open>0\<close> and \<open>1\<close>, modelled as
  unbounded integers.
\<close>

record pos =
  row :: int
  col :: int

type_synonym key = "int \<times> int"

definition key :: "pos \<Rightarrow> key" where
  "key p = (row p, col p)"

text \<open>
  The numbers stored in \<open>gScore\<close> and \<open>fScore\<close>. \<open>Map.get\<close> gives \<open>undefined\<close> for a missing
  key; in \<open>+\<close> and \<open><\<close> it converts to \<open>NaN\<close>, so a missing entry reads as \<open>NaN\<close>: every
  comparison with it is false and every sum with it is \<open>NaN\<close>.
\<close>

datatype num = Num int | NaN

fun lt :: "num \<Rightarrow> num \<Rightarrow> bool" where
  "lt (Num a) (Num b) = (a < b)"
| "lt _ _ = False"

fun add :: "num \<Rightarrow> num \<Rightarrow> num" where
  "add (Num a) (Num b) = Num (a + b)"
| "add _ _ = NaN"

definition get :: "(key \<rightharpoonup> num) \<Rightarrow> key \<Rightarrow> num" where
  "get m k = (case m k of None \<Rightarrow> NaN | Some v \<Rightarrow> v)"

text \<open>The class name list of a tile after \<open>renderGrid\<close>: \<open>tile\<close> alone or with one more class.\<close>

datatype tile_class = Tile | TileStart | TileEnd | TileWall | TilePath | TileVisited

datatype drag = DragStart | DragEnd

record PathfindingGrid =
  rows :: int
  cols :: int
  grid :: "int \<Rightarrow> int \<Rightarrow> tile_class"
  startPos :: pos
  endPos :: pos
  walls :: "key set"
  isDragging :: bool
  dragType :: "drag option"

definition isStart :: "PathfindingGrid \<Rightarrow> int \<Rightarrow> int \<Rightarrow> bool" where
  "isStart g r c = (row (startPos g) = r \<and> col (startPos g) = c)"

definition isEnd :: "PathfindingGrid \<Rightarrow> int \<Rightarrow> int \<Rightarrow> bool" where
  "isEnd g r c = (row (endPos g) = r \<and> col (endPos g) = c)"

definition isWall :: "PathfindingGrid \<Rightarrow> int \<Rightarrow> int \<Rightarrow> bool" where
  "isWall g r c = ((r, c) \<in> walls g)"

definition directions :: "(int \<times> int) list" where
  "directions = [(-1, 0), (1, 0), (0, -1), (0, 1)]"

text \<open>The body of the \<open>for\<close> loop of \<open>getNeighbors\<close>: one direction, pushed when it passes the test.\<close>

definition pushNeighbor :: "PathfindingGrid \<Rightarrow> int \<Rightarrow> int \<Rightarrow> pos list \<Rightarrow> int \<times> int \<Rightarrow> pos list" where
  "pushNeighbor g r c neighbors d =
     (let newRow = r + fst d; newCol = c + snd d in
      if 0 \<le> newRow \<and> newRow < rows g \<and> 0 \<le> newCol \<and> newCol < cols g \<and> \<not> isWall g newRow newCol
      then neighbors @ [\<lparr>row = newRow, col = newCol\<rparr>]
      else neighbors)"

definition getNeighbors :: "PathfindingGrid \<Rightarrow> int \<Rightarrow> int \<Rightarrow> pos list" where
  "getNeighbors g r c = foldl (pushNeighbor g r c) [] directions"

definition heuristic :: "pos \<Rightarrow> pos \<Rightarrow> int" where
  "heuristic pos1 pos2 = \<bar>row pos1 - row pos2\<bar> + \<bar>col pos1 - col pos2\<bar>"

section \<open>\<open>renderGrid\<close>\<close>

definition renderTile :: "PathfindingGrid \<Rightarrow> pos list \<Rightarrow> key set \<Rightarrow> int \<Rightarrow> int \<Rightarrow> tile_class" where
  "renderTile g path visited r c =
     (if isStart g r c then TileStart
      else if isEnd g r c then TileEnd
      else if isWall g r c then TileWall
      else if list_ex (\<lambda>p. row p = r \<and> col p = c) path then TilePath
      else if (r, c) \<in> visited then TileVisited
      else Tile)"

text \<open>The body of the two loops of \<open>renderGrid\<close>: the class of one tile is set.\<close>

definition renderCell :: "pos list \<Rightarrow> key set \<Rightarrow> int \<Rightarrow> PathfindingGrid \<Rightarrow> int \<Rightarrow> PathfindingGrid" where
  "renderCell path visited r g c =
     g\<lparr>grid := (grid g)(r := (grid g r)(c := renderTile g path visited r c))\<rparr>"

definition renderRow :: "pos list \<Rightarrow> key set \<Rightarrow> PathfindingGrid \<Rightarrow> int \<Rightarrow> PathfindingGrid" where
  "renderRow path visited g r = foldl (renderCell path visited r) g [0 .. cols g - 1]"

definition renderGrid :: "PathfindingGrid \<Rightarrow> pos list \<Rightarrow> key set \<Rightarrow> PathfindingGrid" where
  "renderGrid g path visited = foldl (renderRow path visited) g [0 .. rows g - 1]"

section \<open>\<open>findPath\<close>\<close>

record search_state =
  openSet :: "pos list"
  cameFrom :: "key \<rightharpoonup> pos"
  gScore :: "key \<rightharpoonup> num"
  fScore :: "key \<rightharpoonup> num"
  visited :: "key set"

text \<open>
  What one call leaves behind: \<open>path\<close> and \<open>visited\<close> are the two arguments of the call of
  \<open>renderGrid\<close> that ends \<open>findPath\<close>; \<open>found\<close> says that the call returned a path and not \<open>null\<close>.
\<close>

record search_result =
  found :: bool
  path :: "pos list"
  visitedSet :: "key set"

text \<open>
  The scan for the node with the lowest \<open>fScore\<close>: the list is what is left of \<open>openSet\<close> from
  index \<open>i\<close> on, \<open>current\<close> and \<open>currentIdx\<close> are the loop's two variables.
\<close>

fun lowest :: "(key \<rightharpoonup> num) \<Rightarrow> pos list \<Rightarrow> pos \<Rightarrow> nat \<Rightarrow> nat \<Rightarrow> pos \<times> nat" where
  "lowest fS [] current currentIdx i = (current, currentIdx)"
| "lowest fS (p # ps) current currentIdx i =
     (if lt (get fS (key p)) (get fS (key current))
      then lowest fS ps p i (Suc i)
      else lowest fS ps current currentIdx (Suc i))"

text \<open>\<open>openSet.splice(currentIdx, 1)\<close>.\<close>

definition splice1 :: "nat \<Rightarrow> 'a list \<Rightarrow> 'a list" where
  "splice1 i xs = take i xs @ drop (Suc i) xs"

text \<open>The reconstruction loop: \<open>temp\<close> is put in front of the path built so far (\<open>acc\<close>) while
  \<open>cameFrom\<close> has it.\<close>

partial_function (option) reconstruct :: "(key \<rightharpoonup> pos) \<Rightarrow> pos \<Rightarrow> pos list \<Rightarrow> pos list option" where
  "reconstruct cF temp acc =
     (case cF (key temp) of
        None \<Rightarrow> Some acc
      | Some prev \<Rightarrow> reconstruct cF prev (temp # acc))"

declare reconstruct.simps [code]

text \<open>The body of the loop over the neighbors of \<open>current\<close>.\<close>

definition relax :: "pos \<Rightarrow> pos \<Rightarrow> search_state \<Rightarrow> pos \<Rightarrow> search_state" where
  "relax end current s neighbor =
     (let neighborKey = key neighbor;
          tentativeGScore = add (get (gScore s) (key current)) (Num 1) in
      if gScore s neighborKey = None \<or> lt tentativeGScore (get (gScore s) neighborKey)
      then
        (let s' = s\<lparr>cameFrom := (cameFrom s)(neighborKey \<mapsto> current),
                     gScore := (gScore s)(neighborKey \<mapsto> tentativeGScore),
                     fScore := (fScore s)(neighborKey \<mapsto>
                                 add tentativeGScore (Num (heuristic neighbor end)))\<rparr> in
         if \<not> list_ex (\<lambda>pos. key pos = neighborKey) (openSet s')
         then s'\<lparr>openSet := openSet s' @ [neighbor]\<rparr>
         else s')
      else s)"

text \<open>The part of the loop body after the test for the end: lines 177 to 195.\<close>

definition expand :: "PathfindingGrid \<Rightarrow> search_state \<Rightarrow> pos \<Rightarrow> nat \<Rightarrow> search_state" where
  "expand g s current currentIdx =
     foldl (relax (endPos g) current)
       (s\<lparr>openSet := splice1 currentIdx (openSet s),
          visited := insert (key current) (visited s)\<rparr>)
       (getNeighbors g (row current) (col current))"

partial_function (option) searchLoop :: "PathfindingGrid \<Rightarrow> search_state \<Rightarrow> search_result option" where
  "searchLoop g s =
     (case openSet s of
        [] \<Rightarrow> Some \<lparr>found = False, path = [], visitedSet = visited s\<rparr>
      | p # ps \<Rightarrow>
          (case lowest (fScore s) ps p 0 1 of
             (current, currentIdx) \<Rightarrow>
               if row current = row (endPos g) \<and> col current = col (endPos g)
               then (case reconstruct (cameFrom s) current [] of
                       None \<Rightarrow> None
                     | Some acc \<Rightarrow> Some \<lparr>found = True, path = acc, visitedSet = visited s\<rparr>)
               else searchLoop g (expand g s current currentIdx)))"

declare searchLoop.simps [code]

definition initState :: "PathfindingGrid \<Rightarrow> search_state" where
  "initState g =
     \<lparr>openSet = [startPos g],
      cameFrom = Map.empty,
      gScore = [key (startPos g) \<mapsto> Num 0],
      fScore = [key (startPos g) \<mapsto> Num (heuristic (startPos g) (endPos g))],
      visited = {}\<rparr>"

text \<open>
  \<open>findPath\<close>: the result of the search and the object after the call of \<open>renderGrid\<close>.
  \<open>None\<close> stands for a call that does not return.
\<close>

definition findPath :: "PathfindingGrid \<Rightarrow> (search_result \<times> PathfindingGrid) option" where
  "findPath g =
     (case searchLoop g (initState g) of
        None \<Rightarrow> None
      | Some r \<Rightarrow> Some (r, renderGrid g (path r) (visitedSet r)))"

definition toggleWall :: "PathfindingGrid \<Rightarrow> int \<Rightarrow> int \<Rightarrow> PathfindingGrid option" where
  "toggleWall g r c =
     (if isStart g r c \<or> isEnd g r c then Some g
      else
        (let k = (r, c);
             g' = (if k \<in> walls g then g\<lparr>walls := walls g - {k}\<rparr>
                   else g\<lparr>walls := insert k (walls g)\<rparr>) in
         map_option snd (findPath g')))"

section \<open>Notions used to state the properties of the search\<close>

definition unkey :: "key \<Rightarrow> pos" where
  "unkey k = \<lparr>row = fst k, col = snd k\<rparr>"

text \<open>A cell that \<open>getNeighbors\<close> accepts: within the bounds and not a wall.\<close>

definition passable :: "PathfindingGrid \<Rightarrow> pos \<Rightarrow> bool" where
  "passable g n \<longleftrightarrow>
     0 \<le> row n \<and> row n < rows g \<and> 0 \<le> col n \<and> col n < cols g \<and> \<not> isWall g (row n) (col n)"

text \<open>Two cells are 4-adjacent when their Manhattan distance is 1.\<close>

definition adjacent :: "pos \<Rightarrow> pos \<Rightarrow> bool" where
  "adjacent p n \<longleftrightarrow> heuristic p n = 1"

text \<open>
  The cells that can be reached from the start by steps of \<open>getNeighbors\<close>: the form in which
  the invariants of the loop speak of reachability.
\<close>

inductive_set reachable :: "PathfindingGrid \<Rightarrow> pos set" for g :: PathfindingGrid where
  reachable_start: "startPos g \<in> reachable g"
| reachable_step: "p \<in> reachable g \<Longrightarrow> n \<in> set (getNeighbors g (row p) (col p)) \<Longrightarrow> n \<in> reachable g"

text \<open>
  The cells to which an obstacle-free 4-connected route leads from the start, stated on the
  data of the grid alone: each step goes to a cell at Manhattan distance 1 that lies within the
  bounds and is not in the set of walls.
\<close>

inductive_set connected :: "PathfindingGrid \<Rightarrow> pos set" for g :: PathfindingGrid where
  connected_start: "startPos g \<in> connected g"
| connected_step: "p \<in> connected g \<Longrightarrow> \<bar>row n - row p\<bar> + \<bar>col n - col p\<bar> = 1 \<Longrightarrow>
     0 \<le> row n \<Longrightarrow> row n < rows g \<Longrightarrow> 0 \<le> col n \<Longrightarrow> col n < cols g \<Longrightarrow>
     (row n, col n) \<notin> walls g \<Longrightarrow> n \<in> connected g"

text \<open>A walk: from \<open>p\<close>, every cell of the list is among the neighbors of the cell before it.\<close>

fun linked :: "PathfindingGrid \<Rightarrow> pos \<Rightarrow> pos list \<Rightarrow> bool" where
  "linked g p [] = True"
| "linked g p (n # ns) = (n \<in> set (getNeighbors g (row p) (col p)) \<and> linked g n ns)"

subsection \<open>Invariants of the main loop\<close>

definition inv_scores :: "PathfindingGrid \<Rightarrow> search_state \<Rightarrow> bool" where
  "inv_scores g s \<longleftrightarrow>
     gScore s (key (startPos g)) = Some (Num 0) \<and>
     (\<forall>k x. gScore s k = Some x \<longrightarrow>
        (\<exists>v. x = Num v \<and> heuristic (startPos g) (unkey k) \<le> v \<and>
             fScore s k = Some (Num (v + heuristic (unkey k) (endPos g)))))"

definition inv_open :: "PathfindingGrid \<Rightarrow> search_state \<Rightarrow> bool" where
  "inv_open g s \<longleftrightarrow>
     distinct (map key (openSet s)) \<and> key (endPos g) \<notin> visited s \<and>
     (\<forall>k. gScore s k \<noteq> None \<longleftrightarrow> k \<in> key ` set (openSet s) \<or> k \<in> visited s)"

definition inv_reach :: "PathfindingGrid \<Rightarrow> search_state \<Rightarrow> bool" where
  "inv_reach g s \<longleftrightarrow> (\<forall>k. gScore s k \<noteq> None \<longrightarrow> unkey k \<in> reachable g)"

definition inv_came :: "PathfindingGrid \<Rightarrow> search_state \<Rightarrow> bool" where
  "inv_came g s \<longleftrightarrow>
     (\<forall>k p. cameFrom s k = Some p \<longrightarrow>
        unkey k \<in> set (getNeighbors g (row p) (col p)) \<and>
        (\<exists>vp vk. gScore s (key p) = Some (Num vp) \<and> gScore s k = Some (Num vk) \<and> vp < vk)) \<and>
     (\<forall>k. gScore s k \<noteq> None \<longrightarrow> k = key (startPos g) \<or> cameFrom s k \<noteq> None)"

definition inv_inner :: "PathfindingGrid \<Rightarrow> search_state \<Rightarrow> bool" where
  "inv_inner g s \<longleftrightarrow> inv_scores g s \<and> inv_open g s \<and> inv_reach g s \<and> inv_came g s"

text \<open>
  Every scored cell outside \<open>openSet\<close> has had its neighbors relaxed; for the cell \<open>c\<close> being
  expanded, only the neighbors in \<open>D\<close> have been so far.
\<close>

definition relaxed_upto :: "PathfindingGrid \<Rightarrow> pos \<Rightarrow> pos set \<Rightarrow> search_state \<Rightarrow> bool" where
  "relaxed_upto g c D s \<longleftrightarrow>
     (\<forall>p vp. gScore s (key p) = Some (Num vp) \<longrightarrow> key p \<notin> key ` set (openSet s) \<longrightarrow>
        (\<forall>n \<in> set (getNeighbors g (row p) (col p)). (p = c \<longrightarrow> n \<in> D) \<longrightarrow>
           (\<exists>vn. gScore s (key n) = Some (Num vn) \<and> vn \<le> vp + 1)))"

definition loop_inv :: "PathfindingGrid \<Rightarrow> search_state \<Rightarrow> bool" where
  "loop_inv g s \<longleftrightarrow> inv_inner g s \<and> relaxed_upto g (startPos g) UNIV s"

subsection \<open>The quantity that decreases with every pass of the main loop\<close>

definition cells :: "PathfindingGrid \<Rightarrow> key set" where
  "cells g = insert (key (startPos g)) ({0 ..< rows g} \<times> {0 ..< cols g})"

definition gval :: "search_state \<Rightarrow> key \<Rightarrow> nat" where
  "gval s k = (case gScore s k of Some (Num v) \<Rightarrow> nat v | _ \<Rightarrow> 0)"

definition progress :: "PathfindingGrid \<Rightarrow> search_state \<Rightarrow> nat \<times> nat \<times> nat" where
  "progress g s = (card (cells g - dom (gScore s)), sum (gval s) (cells g), length (openSet s))"

subsection \<open>Concrete grids\<close>

text \<open>
  A grid of 20 rows and 20 columns whose tiles have not been painted yet, with the start, the
  end and the walls where dragging and clicking can put them.
\<close>

definition demo :: "pos \<Rightarrow> pos \<Rightarrow> key set \<Rightarrow> PathfindingGrid" where
  "demo s e w = \<lparr>rows = 20, cols = 20, grid = (\<lambda>_ _. Tile), startPos = s, endPos = e, walls = w,
     isDragging = False, dragType = None\<rparr>"

section \<open>Properties of the search\<close>

subsection \<open>Keys and neighbors\<close>

lemma key_eq_iff: "key p = key q \<longleftrightarrow> p = q"
  by (cases p, cases q) (simp add: key_def)

lemma unkey_key [simp]: "unkey (key p) = p"
  by (simp add: unkey_def key_def)

lemma key_unkey [simp]: "key (unkey k) = k"
  by (simp add: unkey_def key_def)

lemma pushNeighbor_passable:
  "pushNeighbor g r c ns d =
     (if passable g \<lparr>row = r + fst d, col = c + snd d\<rparr>
      then ns @ [\<lparr>row = r + fst d, col = c + snd d\<rparr>] else ns)"
  by (simp add: pushNeighbor_def Let_def passable_def)

lemma getNeighbors_filter:
  "getNeighbors g r c = filter (passable g)
     [\<lparr>row = r - 1, col = c\<rparr>, \<lparr>row = r + 1, col = c\<rparr>,
      \<lparr>row = r, col = c - 1\<rparr>, \<lparr>row = r, col = c + 1\<rparr>]"
  by (simp add: getNeighbors_def directions_def pushNeighbor_passable)

lemma adjacent_iff:
  "adjacent p n \<longleftrightarrow>
     n = \<lparr>row = row p - 1, col = col p\<rparr> \<or> n = \<lparr>row = row p + 1, col = col p\<rparr> \<or>
     n = \<lparr>row = row p, col = col p - 1\<rparr> \<or> n = \<lparr>row = row p, col = col p + 1\<rparr>"
proof (cases n)
  case (fields r c)
  have "\<bar>row p - r\<bar> + \<bar>col p - c\<bar> = 1 \<longleftrightarrow>
        (r = row p - 1 \<and> c = col p) \<or> (r = row p + 1 \<and> c = col p) \<or>
        (r = row p \<and> c = col p - 1) \<or> (r = row p \<and> c = col p + 1)"
    by arith
  with fields show ?thesis by (simp add: adjacent_def heuristic_def)
qed

lemma in_getNeighbors:
  "n \<in> set (getNeighbors g (row p) (col p)) \<longleftrightarrow> adjacent p n \<and> passable g n"
  by (auto simp: getNeighbors_filter adjacent_iff)

lemma adjacent_neq: "adjacent p n \<Longrightarrow> key n \<noteq> key p"
  by (auto simp: adjacent_def heuristic_def key_def)

lemma neighbor_key_neq: "n \<in> set (getNeighbors g (row p) (col p)) \<Longrightarrow> key n \<noteq> key p"
  by (simp add: in_getNeighbors adjacent_neq)

lemma heuristic_step: "adjacent p n \<Longrightarrow> heuristic a n \<le> heuristic a p + 1"
  by (simp add: adjacent_def heuristic_def)

lemma heuristic_nonneg: "0 \<le> heuristic a b"
  by (simp add: heuristic_def)

subsection \<open>The scan of the open set\<close>

lemma lowest_index:
  "lowest fS ps cur idx i = (c, j) \<Longrightarrow> length pre = i \<Longrightarrow> idx < i \<Longrightarrow> pre ! idx = cur \<Longrightarrow>
   j < length (pre @ ps) \<and> (pre @ ps) ! j = c"
proof (induction ps arbitrary: pre cur idx i)
  case Nil
  then show ?case by simp
next
  case (Cons p ps)
  show ?case
  proof (cases "lt (get fS (key p)) (get fS (key cur))")
    case True
    with Cons.prems have "lowest fS ps p i (Suc i) = (c, j)" by simp
    from Cons.IH[OF this, of "pre @ [p]"] Cons.prems show ?thesis by (simp add: nth_append)
  next
    case False
    with Cons.prems have "lowest fS ps cur idx (Suc i) = (c, j)" by simp
    from Cons.IH[OF this, of "pre @ [p]"] Cons.prems show ?thesis by (simp add: nth_append)
  qed
qed

lemma lowest_openSet:
  assumes "lowest fS ps p 0 1 = (c, j)"
  shows "j < length (p # ps) \<and> (p # ps) ! j = c"
  using lowest_index[OF assms, of "[p]"] by simp

lemma set_splice1:
  "i < length xs \<Longrightarrow> distinct (map f xs) \<Longrightarrow> f ` set (splice1 i xs) = f ` set xs - {f (xs ! i)}"
proof -
  assume i: "i < length xs" and d: "distinct (map f xs)"
  have xs: "xs = take i xs @ xs ! i # drop (Suc i) xs" using i by (rule id_take_nth_drop)
  have "distinct (map f (take i xs @ xs ! i # drop (Suc i) xs))" using d xs by simp
  then have "f (xs ! i) \<notin> f ` set (take i xs)" "f (xs ! i) \<notin> f ` set (drop (Suc i) xs)"
    by auto
  moreover have "f ` set xs = f ` set (take i xs) \<union> {f (xs ! i)} \<union> f ` set (drop (Suc i) xs)"
    by (subst xs) auto
  ultimately show ?thesis by (auto simp: splice1_def)
qed

lemma distinct_splice1: "distinct (map f xs) \<Longrightarrow> distinct (map f (splice1 i xs))"
proof -
  assume d: "distinct (map f xs)"
  have "distinct (map f (take i xs @ drop i xs))" using d by simp
  moreover have "drop (Suc i) xs = tl (drop i xs)" by (simp add: drop_Suc tl_drop)
  ultimately have "distinct (map f (take i xs @ drop (Suc i) xs))"
    by (cases "drop i xs") auto
  then show ?thesis by (simp add: splice1_def)
qed

lemma length_splice1: "i < length xs \<Longrightarrow> length (splice1 i xs) < length xs"
  by (simp add: splice1_def)

subsection \<open>One relaxation\<close>

lemma inv_scores_Num:
  "inv_scores g s \<Longrightarrow> gScore s k = Some x \<Longrightarrow> \<exists>v. x = Num v \<and> 0 \<le> v"
  unfolding inv_scores_def using heuristic_nonneg[of "startPos g" "unkey k"] by fastforce

lemma list_ex_key: "list_ex (\<lambda>pos. key pos = k) xs \<longleftrightarrow> k \<in> key ` set xs"
  by (auto simp: list_ex_iff)

lemma relax_cases:
  assumes gc: "gScore s (key c) = Some (Num vc)" and sc: "inv_scores g s"
  obtains (keep) vn where "gScore s (key n) = Some (Num vn)" "vn \<le> vc + 1" "relax e c s n = s"
  | (improve) "gScore s (key n) = None \<or> (\<exists>vn. gScore s (key n) = Some (Num vn) \<and> vc + 1 < vn)"
      "relax e c s n =
         s\<lparr>openSet := (if key n \<in> key ` set (openSet s) then openSet s else openSet s @ [n]),
           cameFrom := (cameFrom s)(key n \<mapsto> c),
           gScore := (gScore s)(key n \<mapsto> Num (vc + 1)),
           fScore := (fScore s)(key n \<mapsto> Num (vc + 1 + heuristic n e))\<rparr>"
proof (cases "gScore s (key n)")
  case None
  have "relax e c s n =
         s\<lparr>openSet := (if key n \<in> key ` set (openSet s) then openSet s else openSet s @ [n]),
           cameFrom := (cameFrom s)(key n \<mapsto> c),
           gScore := (gScore s)(key n \<mapsto> Num (vc + 1)),
           fScore := (fScore s)(key n \<mapsto> Num (vc + 1 + heuristic n e))\<rparr>"
    using None gc by (simp add: relax_def Let_def get_def list_ex_key)
  with None show ?thesis by (intro improve) simp_all
next
  case (Some x)
  then obtain vn where x: "x = Num vn" using inv_scores_Num[OF sc] by blast
  show ?thesis
  proof (cases "vc + 1 < vn")
    case True
    have "relax e c s n =
         s\<lparr>openSet := (if key n \<in> key ` set (openSet s) then openSet s else openSet s @ [n]),
           cameFrom := (cameFrom s)(key n \<mapsto> c),
           gScore := (gScore s)(key n \<mapsto> Num (vc + 1)),
           fScore := (fScore s)(key n \<mapsto> Num (vc + 1 + heuristic n e))\<rparr>"
      using Some x True gc by (simp add: relax_def Let_def get_def list_ex_key)
    with Some x True show ?thesis by (intro improve) simp_all
  next
    case False
    have "relax e c s n = s"
      using Some x False gc by (simp add: relax_def Let_def get_def)
    with Some x False show ?thesis by (intro keep[of vn]) simp_all
  qed
qed

lemma relax_gScore_current:
  assumes gc: "gScore s (key c) = Some (Num vc)" and sc: "inv_scores g s" and adj: "adjacent c n"
  shows "gScore (relax e c s n) (key c) = Some (Num vc)"
  using gc sc
proof (cases rule: relax_cases[of s c vc g n e])
  case (keep vn)
  then show ?thesis using gc by simp
next
  case improve
  then show ?thesis using gc adjacent_neq[OF adj] by simp
qed

lemma relax_inv_scores:
  assumes gc: "gScore s (key c) = Some (Num vc)" and sc: "inv_scores g s" and adj: "adjacent c n"
  shows "inv_scores g (relax (endPos g) c s n)"
  using gc sc
proof (cases rule: relax_cases[of s c vc g n "endPos g"])
  case (keep vn)
  then show ?thesis using sc by simp
next
  case improve
  have vc: "heuristic (startPos g) c \<le> vc"
    using sc gc unfolding inv_scores_def by fastforce
  have hn: "heuristic (startPos g) n \<le> vc + 1"
    using heuristic_step[OF adj, of "startPos g"] vc by simp
  have vc0: "0 \<le> vc" using inv_scores_Num[OF sc gc] by simp
  have g0: "gScore s (key (startPos g)) = Some (Num 0)" using sc by (simp add: inv_scores_def)
  have ns: "key n \<noteq> key (startPos g)"
  proof
    assume "key n = key (startPos g)"
    with improve(1) g0 vc0 show False by auto
  qed
  show ?thesis
    unfolding inv_scores_def
  proof (intro conjI allI impI)
    show "gScore (relax (endPos g) c s n) (key (startPos g)) = Some (Num 0)"
      using improve(2) ns g0 by simp
  next
    fix k x assume kx: "gScore (relax (endPos g) c s n) k = Some x"
    show "\<exists>v. x = Num v \<and> heuristic (startPos g) (unkey k) \<le> v \<and>
            fScore (relax (endPos g) c s n) k = Some (Num (v + heuristic (unkey k) (endPos g)))"
    proof (cases "k = key n")
      case True
      then show ?thesis using kx improve(2) hn by simp
    next
      case False
      then have "gScore s k = Some x" using kx improve(2) by simp
      then obtain v where "x = Num v" "heuristic (startPos g) (unkey k) \<le> v"
         "fScore s k = Some (Num (v + heuristic (unkey k) (endPos g)))"
        using sc unfolding inv_scores_def by blast
      then show ?thesis using False improve(2) by simp
    qed
  qed
qed

lemma relax_inv_open:
  assumes gc: "gScore s (key c) = Some (Num vc)" and sc: "inv_scores g s" and io: "inv_open g s"
  shows "inv_open g (relax e c s n)"
  using gc sc
proof (cases rule: relax_cases[of s c vc g n e])
  case (keep vn)
  then show ?thesis using io by simp
next
  case improve
  have d: "distinct (map key (openSet s))" and e: "key (endPos g) \<notin> visited s"
    and dom: "\<And>k. gScore s k \<noteq> None \<longleftrightarrow> k \<in> key ` set (openSet s) \<or> k \<in> visited s"
    using io unfolding inv_open_def by blast+
  show ?thesis
    unfolding inv_open_def
  proof (intro conjI allI)
    show "distinct (map key (openSet (relax e c s n)))" using improve(2) d by auto
    show "key (endPos g) \<notin> visited (relax e c s n)" using improve(2) e by simp
    fix k
    show "gScore (relax e c s n) k \<noteq> None \<longleftrightarrow>
          k \<in> key ` set (openSet (relax e c s n)) \<or> k \<in> visited (relax e c s n)"
      using improve(2) dom[of k] by (cases "k = key n") auto
  qed
qed

lemma relax_inv_reach:
  assumes gc: "gScore s (key c) = Some (Num vc)" and sc: "inv_scores g s" and ir: "inv_reach g s"
    and nb: "n \<in> set (getNeighbors g (row c) (col c))"
  shows "inv_reach g (relax e c s n)"
  using gc sc
proof (cases rule: relax_cases[of s c vc g n e])
  case (keep vn)
  then show ?thesis using ir by simp
next
  case improve
  have "unkey (key c) \<in> reachable g" using ir gc unfolding inv_reach_def by blast
  then have "n \<in> reachable g" using nb by (auto intro: reachable_step)
  then show ?thesis
    using ir improve(2) unfolding inv_reach_def by (auto split: if_splits)
qed

lemma relax_inv_came:
  assumes gc: "gScore s (key c) = Some (Num vc)" and sc: "inv_scores g s" and ic: "inv_came g s"
    and nb: "n \<in> set (getNeighbors g (row c) (col c))"
  shows "inv_came g (relax e c s n)"
  using gc sc
proof (cases rule: relax_cases[of s c vc g n e])
  case (keep vn)
  then show ?thesis using ic by simp
next
  case improve
  have nc: "key n \<noteq> key c" using nb by (rule neighbor_key_neq)
  have links: "\<And>k p. cameFrom s k = Some p \<Longrightarrow>
        unkey k \<in> set (getNeighbors g (row p) (col p)) \<and>
        (\<exists>vp vk. gScore s (key p) = Some (Num vp) \<and> gScore s k = Some (Num vk) \<and> vp < vk)"
    and roots: "\<And>k. gScore s k \<noteq> None \<Longrightarrow> k = key (startPos g) \<or> cameFrom s k \<noteq> None"
    using ic unfolding inv_came_def by blast+
  let ?s = "relax e c s n"
  show ?thesis
    unfolding inv_came_def
  proof (intro conjI allI impI)
    fix k p assume kp: "cameFrom ?s k = Some p"
    show "unkey k \<in> set (getNeighbors g (row p) (col p))"
      using kp improve(2) nb links by (cases "k = key n") auto
    show "\<exists>vp vk. gScore ?s (key p) = Some (Num vp) \<and> gScore ?s k = Some (Num vk) \<and> vp < vk"
    proof (cases "k = key n")
      case True
      then have "p = c" using kp improve(2) by simp
      then show ?thesis using True improve(2) gc nc by simp
    next
      case False
      then have "cameFrom s k = Some p" using kp improve(2) by simp
      then obtain vp vk where v: "gScore s (key p) = Some (Num vp)" "gScore s k = Some (Num vk)" "vp < vk"
        using links by blast
      show ?thesis
      proof (cases "key p = key n")
        case True
        with v(1) improve(1) have "vc + 1 < vp" by auto
        then show ?thesis using True False v improve(2) by simp
      next
        case F: False
        then show ?thesis using False v improve(2) by simp
      qed
    qed
  next
    fix k assume "gScore ?s k \<noteq> None"
    then show "k = key (startPos g) \<or> cameFrom ?s k \<noteq> None"
      using improve(2) roots[of k] by (cases "k = key n") auto
  qed
qed

lemma relax_inv_inner:
  assumes "gScore s (key c) = Some (Num vc)" and "inv_inner g s"
    and "n \<in> set (getNeighbors g (row c) (col c))"
  shows "inv_inner g (relax (endPos g) c s n)"
  using assms relax_inv_scores relax_inv_open relax_inv_reach relax_inv_came
  unfolding inv_inner_def by (simp add: in_getNeighbors)

lemma relax_relaxed_upto:
  assumes gc: "gScore s (key c) = Some (Num vc)" and sc: "inv_scores g s"
    and ru: "relaxed_upto g c D s"
  shows "relaxed_upto g c (insert n D) (relax e c s n)"
  using gc sc
proof (cases rule: relax_cases[of s c vc g n e])
  case (keep vn)
  show ?thesis
    unfolding relaxed_upto_def
  proof (intro allI impI ballI)
    fix p vp n'
    assume gp: "gScore (relax e c s n) (key p) = Some (Num vp)"
      and no: "key p \<notin> key ` set (openSet (relax e c s n))"
      and n': "n' \<in> set (getNeighbors g (row p) (col p))"
      and D: "p = c \<longrightarrow> n' \<in> insert n D"
    show "\<exists>vn. gScore (relax e c s n) (key n') = Some (Num vn) \<and> vn \<le> vp + 1"
    proof (cases "p = c \<and> n' = n")
      case True
      then show ?thesis using keep gp gc by simp
    next
      case False
      then have "p = c \<longrightarrow> n' \<in> D" using D by auto
      then show ?thesis using ru gp no n' keep(3) unfolding relaxed_upto_def by simp
    qed
  qed
next
  case improve
  let ?s = "relax e c s n"
  have inopen: "key n \<in> key ` set (openSet ?s)" using improve(2) by auto
  have sub: "key ` set (openSet s) \<subseteq> key ` set (openSet ?s)" using improve(2) by auto
  show ?thesis
    unfolding relaxed_upto_def
  proof (intro allI impI ballI)
    fix p vp n'
    assume gp: "gScore ?s (key p) = Some (Num vp)"
      and no: "key p \<notin> key ` set (openSet ?s)"
      and n': "n' \<in> set (getNeighbors g (row p) (col p))"
      and D: "p = c \<longrightarrow> n' \<in> insert n D"
    have pn: "key p \<noteq> key n" using no inopen by auto
    then have gp': "gScore s (key p) = Some (Num vp)" using gp improve(2) by simp
    have no': "key p \<notin> key ` set (openSet s)" using no sub by auto
    show "\<exists>vn. gScore ?s (key n') = Some (Num vn) \<and> vn \<le> vp + 1"
    proof (cases "n' = n")
      case True
      have "vc + 1 \<le> vp + 1"
      proof (cases "p = c")
        case True
        then show ?thesis using gp' gc by simp
      next
        case False
        then obtain vn where "gScore s (key n) = Some (Num vn)" "vn \<le> vp + 1"
          using ru gp' no' n' True unfolding relaxed_upto_def by blast
        then show ?thesis using improve(1) by auto
      qed
      then show ?thesis using True improve(2) by simp
    next
      case False
      then have kn: "key n' \<noteq> key n" by (simp add: key_eq_iff)
      have "p = c \<longrightarrow> n' \<in> D" using D False by auto
      then obtain vn where "gScore s (key n') = Some (Num vn)" "vn \<le> vp + 1"
        using ru gp' no' n' unfolding relaxed_upto_def by blast
      then show ?thesis using kn improve(2) by simp
    qed
  qed
qed

subsection \<open>The measure\<close>

lemma finite_cells: "finite (cells g)"
  by (simp add: cells_def)

lemma passable_cells: "passable g n \<Longrightarrow> key n \<in> cells g"
  by (simp add: passable_def cells_def key_def)

lemma reachable_cells: "p \<in> reachable g \<Longrightarrow> key p \<in> cells g"
proof (induction rule: reachable.induct)
  case reachable_start
  show ?case by (simp add: cells_def)
next
  case (reachable_step p n)
  then show ?case by (simp add: in_getNeighbors passable_cells)
qed

lemma inv_reach_cells: "inv_reach g s \<Longrightarrow> dom (gScore s) \<subseteq> cells g"
proof
  fix k assume "inv_reach g s" "k \<in> dom (gScore s)"
  then have "unkey k \<in> reachable g" unfolding inv_reach_def by blast
  from reachable_cells[OF this] show "k \<in> cells g" by simp
qed

lemma relax_progress:
  assumes gc: "gScore s (key c) = Some (Num vc)" and sc: "inv_scores g s" and ir: "inv_reach g s"
    and nb: "n \<in> set (getNeighbors g (row c) (col c))"
  shows "progress g (relax e c s n) \<le> progress g s"
  using gc sc
proof (cases rule: relax_cases[of s c vc g n e])
  case (keep vn)
  then show ?thesis by simp
next
  case improve
  let ?s = "relax e c s n"
  have ncell: "key n \<in> cells g" using nb by (simp add: in_getNeighbors passable_cells)
  have vc0: "0 \<le> vc" using inv_scores_Num[OF sc gc] by simp
  from improve(1) show ?thesis
  proof
    assume none: "gScore s (key n) = None"
    have "dom (gScore ?s) = insert (key n) (dom (gScore s))" using improve(2) by simp
    then have "cells g - dom (gScore ?s) = (cells g - dom (gScore s)) - {key n}" by auto
    moreover have "key n \<in> cells g - dom (gScore s)" using ncell none by auto
    moreover have "finite (cells g - dom (gScore s))" using finite_cells[of g] by simp
    ultimately have "card (cells g - dom (gScore ?s)) < card (cells g - dom (gScore s))"
      using card_Diff1_less[of "cells g - dom (gScore s)" "key n"] by simp
    then show ?thesis by (simp add: progress_def)
  next
    assume "\<exists>vn. gScore s (key n) = Some (Num vn) \<and> vc + 1 < vn"
    then obtain vn where vn: "gScore s (key n) = Some (Num vn)" "vc + 1 < vn" by blast
    have "dom (gScore ?s) = dom (gScore s)" using improve(2) vn(1) by auto
    moreover have "sum (gval ?s) (cells g) < sum (gval s) (cells g)"
    proof (rule sum_strict_mono_ex1[OF finite_cells])
      show "\<forall>k\<in>cells g. gval ?s k \<le> gval s k"
        using improve(2) vn vc0 by (auto simp: gval_def)
      show "\<exists>k\<in>cells g. gval ?s k < gval s k"
        using improve(2) vn vc0 ncell by (intro bexI[of _ "key n"]) (auto simp: gval_def)
    qed
    ultimately show ?thesis by (simp add: progress_def)
  qed
qed

subsection \<open>The loop over the neighbors\<close>

lemma foldl_relax:
  assumes "set ns \<subseteq> set (getNeighbors g (row c) (col c))"
    and "gScore s (key c) = Some (Num vc)" and "inv_inner g s" and "relaxed_upto g c D s"
  shows "gScore (foldl (relax (endPos g) c) s ns) (key c) = Some (Num vc) \<and>
         inv_inner g (foldl (relax (endPos g) c) s ns) \<and>
         relaxed_upto g c (D \<union> set ns) (foldl (relax (endPos g) c) s ns) \<and>
         progress g (foldl (relax (endPos g) c) s ns) \<le> progress g s"
  using assms
proof (induction ns arbitrary: s D)
  case Nil
  then show ?case by simp
next
  case (Cons n ns)
  let ?s = "relax (endPos g) c s n"
  have nb: "n \<in> set (getNeighbors g (row c) (col c))" using Cons.prems(1) by simp
  have sc: "inv_scores g s" and ir: "inv_reach g s" using Cons.prems(3) by (simp_all add: inv_inner_def)
  have 1: "gScore ?s (key c) = Some (Num vc)"
    using relax_gScore_current[OF Cons.prems(2) sc] nb by (simp add: in_getNeighbors)
  have 2: "inv_inner g ?s" using relax_inv_inner[OF Cons.prems(2,3) nb] .
  have 3: "relaxed_upto g c (insert n D) ?s" using relax_relaxed_upto[OF Cons.prems(2) sc Cons.prems(4)] .
  have 4: "progress g ?s \<le> progress g s" using relax_progress[OF Cons.prems(2) sc ir nb] .
  have sub: "set ns \<subseteq> set (getNeighbors g (row c) (col c))" using Cons.prems(1) by simp
  have eq: "insert n D \<union> set ns = D \<union> set (n # ns)" by auto
  from Cons.IH[OF sub 1 2 3] have
    "gScore (foldl (relax (endPos g) c) ?s ns) (key c) = Some (Num vc)"
    "inv_inner g (foldl (relax (endPos g) c) ?s ns)"
    "relaxed_upto g c (D \<union> set (n # ns)) (foldl (relax (endPos g) c) ?s ns)"
    "progress g (foldl (relax (endPos g) c) ?s ns) \<le> progress g ?s"
    unfolding eq by blast+
  with 4 show ?case by (simp del: less_eq_prod_simp)
qed

subsection \<open>Taking the current cell out of the open set\<close>

lemma remove_current:
  assumes i: "loop_inv g s" and j: "j < length (openSet s)" and c: "openSet s ! j = c"
    and ne: "key c \<noteq> key (endPos g)"
  defines "s1 \<equiv> s\<lparr>openSet := splice1 j (openSet s), visited := insert (key c) (visited s)\<rparr>"
  shows "inv_inner g s1" and "relaxed_upto g c {} s1" and "progress g s1 < progress g s"
    and "\<exists>vc. gScore s1 (key c) = Some (Num vc)"
proof -
  have sc: "inv_scores g s" and io: "inv_open g s" and ir: "inv_reach g s" and ic: "inv_came g s"
    and ru: "relaxed_upto g (startPos g) UNIV s"
    using i by (simp_all add: loop_inv_def inv_inner_def)
  have d: "distinct (map key (openSet s))" and e: "key (endPos g) \<notin> visited s"
    and dom: "\<And>k. gScore s k \<noteq> None \<longleftrightarrow> k \<in> key ` set (openSet s) \<or> k \<in> visited s"
    using io unfolding inv_open_def by blast+
  have keys: "key ` set (splice1 j (openSet s)) = key ` set (openSet s) - {key c}"
    using set_splice1[OF j d] c by simp
  have cin: "key c \<in> key ` set (openSet s)" using j c by (metis imageI nth_mem)
  have "inv_open g s1"
    unfolding inv_open_def
  proof (intro conjI allI)
    show "distinct (map key (openSet s1))" using d by (simp add: s1_def distinct_splice1)
    show "key (endPos g) \<notin> visited s1" using e ne by (simp add: s1_def)
    fix k show "gScore s1 k \<noteq> None \<longleftrightarrow> k \<in> key ` set (openSet s1) \<or> k \<in> visited s1"
      using dom[of k] keys cin by (auto simp: s1_def)
  qed
  moreover have "inv_scores g s1" using sc by (simp add: inv_scores_def s1_def)
  moreover have "inv_reach g s1" using ir by (simp add: inv_reach_def s1_def)
  moreover have "inv_came g s1" using ic by (simp add: inv_came_def s1_def)
  ultimately show "inv_inner g s1" by (simp add: inv_inner_def)
  show "relaxed_upto g c {} s1"
    unfolding relaxed_upto_def
  proof (intro allI impI ballI)
    fix p vp n
    assume gp: "gScore s1 (key p) = Some (Num vp)" and no: "key p \<notin> key ` set (openSet s1)"
      and n: "n \<in> set (getNeighbors g (row p) (col p))" and D: "p = c \<longrightarrow> n \<in> {}"
    have pc: "p \<noteq> c" using D by auto
    then have "key p \<notin> key ` set (openSet s)" using no keys by (auto simp: s1_def key_eq_iff)
    moreover have "gScore s (key p) = Some (Num vp)" using gp by (simp add: s1_def)
    ultimately have "\<exists>vn. gScore s (key n) = Some (Num vn) \<and> vn \<le> vp + 1"
      using ru n unfolding relaxed_upto_def by blast
    then show "\<exists>vn. gScore s1 (key n) = Some (Num vn) \<and> vn \<le> vp + 1" by (simp add: s1_def)
  qed
  show "progress g s1 < progress g s"
    using length_splice1[OF j] by (simp add: progress_def s1_def gval_def)
  have "gScore s (key c) \<noteq> None" using dom[of "key c"] cin by simp
  then obtain x where "gScore s (key c) = Some x" by auto
  with inv_scores_Num[OF sc this] show "\<exists>vc. gScore s1 (key c) = Some (Num vc)"
    by (auto simp: s1_def)
qed

lemma relaxed_upto_all:
  "relaxed_upto g c (D \<union> set (getNeighbors g (row c) (col c))) s \<Longrightarrow> relaxed_upto g c' UNIV s"
  unfolding relaxed_upto_def by blast

lemma expand_inv:
  assumes i: "loop_inv g s" and j: "j < length (openSet s)" and c: "openSet s ! j = c"
    and ne: "key c \<noteq> key (endPos g)"
  shows "loop_inv g (expand g s c j)" and "progress g (expand g s c j) < progress g s"
proof -
  let ?s1 = "s\<lparr>openSet := splice1 j (openSet s), visited := insert (key c) (visited s)\<rparr>"
  from remove_current[OF i j c ne] obtain vc where
    1: "inv_inner g ?s1" and 2: "relaxed_upto g c {} ?s1" and 3: "progress g ?s1 < progress g s"
    and 4: "gScore ?s1 (key c) = Some (Num vc)" by blast
  have e: "expand g s c j = foldl (relax (endPos g) c) ?s1 (getNeighbors g (row c) (col c))"
    by (simp add: expand_def)
  from foldl_relax[OF subset_refl 4 1 2] have
    5: "inv_inner g (expand g s c j)"
    and 6: "relaxed_upto g c ({} \<union> set (getNeighbors g (row c) (col c))) (expand g s c j)"
    and 7: "progress g (expand g s c j) \<le> progress g ?s1"
    unfolding e by blast+
  show "loop_inv g (expand g s c j)" using 5 relaxed_upto_all[OF 6] by (simp add: loop_inv_def)
  show "progress g (expand g s c j) < progress g s" using 7 3 by (rule le_less_trans)
qed

lemma inv_initState: "loop_inv g (initState g)"
proof -
  have "inv_scores g (initState g)"
    by (simp add: inv_scores_def initState_def heuristic_def)
  moreover have "inv_open g (initState g)"
    by (simp add: inv_open_def initState_def)
  moreover have "inv_reach g (initState g)"
    by (auto simp: inv_reach_def initState_def intro: reachable_start split: if_splits)
  moreover have "inv_came g (initState g)"
    by (simp add: inv_came_def initState_def)
  moreover have "relaxed_upto g (startPos g) UNIV (initState g)"
    by (auto simp: relaxed_upto_def initState_def split: if_splits)
  ultimately show ?thesis by (simp add: loop_inv_def inv_inner_def)
qed

subsection \<open>Unfolding the main loop\<close>

lemma pos_eq_iff: "row a = row b \<and> col a = col b \<longleftrightarrow> a = (b :: pos)"
  by (cases a, cases b) simp

lemma searchLoop_empty:
  "openSet s = [] \<Longrightarrow> searchLoop g s = Some \<lparr>found = False, path = [], visitedSet = visited s\<rparr>"
  by (subst searchLoop.simps) simp

lemma searchLoop_found:
  "openSet s = p # ps \<Longrightarrow> lowest (fScore s) ps p 0 1 = (c, j) \<Longrightarrow> c = endPos g \<Longrightarrow>
   searchLoop g s =
     map_option (\<lambda>acc. \<lparr>found = True, path = acc, visitedSet = visited s\<rparr>)
       (reconstruct (cameFrom s) c [])"
  by (subst searchLoop.simps) (simp split: option.splits)

lemma searchLoop_step:
  "openSet s = p # ps \<Longrightarrow> lowest (fScore s) ps p 0 1 = (c, j) \<Longrightarrow> c \<noteq> endPos g \<Longrightarrow>
   searchLoop g s = searchLoop g (expand g s c j)"
  by (subst searchLoop.simps) (simp add: pos_eq_iff)

lemma searchLoop_induct [consumes 1, case_names empty found step]:
  assumes "loop_inv g s"
    and "\<And>s. loop_inv g s \<Longrightarrow> openSet s = [] \<Longrightarrow> P s"
    and "\<And>s p ps j. loop_inv g s \<Longrightarrow> openSet s = p # ps \<Longrightarrow>
           lowest (fScore s) ps p 0 1 = (endPos g, j) \<Longrightarrow> P s"
    and "\<And>s p ps c j. loop_inv g s \<Longrightarrow> openSet s = p # ps \<Longrightarrow>
           lowest (fScore s) ps p 0 1 = (c, j) \<Longrightarrow> c \<noteq> endPos g \<Longrightarrow>
           loop_inv g (expand g s c j) \<Longrightarrow> P (expand g s c j) \<Longrightarrow> P s"
  shows "P s"
  using assms(1)
proof (induction "progress g s" arbitrary: s rule: less_induct)
  case less
  show ?case
  proof (cases "openSet s")
    case Nil
    then show ?thesis using assms(2) less.prems by blast
  next
    case (Cons p ps)
    obtain c j where l: "lowest (fScore s) ps p 0 1 = (c, j)" by (cases "lowest (fScore s) ps p 0 1")
    show ?thesis
    proof (cases "c = endPos g")
      case True
      then show ?thesis using assms(3)[OF less.prems Cons] l by simp
    next
      case False
      have j: "j < length (openSet s)" "openSet s ! j = c"
        using lowest_openSet[OF l] Cons by simp_all
      have ne: "key c \<noteq> key (endPos g)" using False by (simp add: key_eq_iff)
      note e = expand_inv[OF less.prems j ne]
      from less.hyps[OF e(2) e(1)] show ?thesis
        using assms(4)[OF less.prems Cons l False e(1)] by blast
    qed
  qed
qed

subsection \<open>The reconstruction loop\<close>

lemma linked_append:
  "linked g p (xs @ [n]) \<longleftrightarrow>
     linked g p xs \<and> n \<in> set (getNeighbors g (row (last (p # xs))) (col (last (p # xs))))"
  by (induction xs arbitrary: p) auto

lemma no_cameFrom_start:
  assumes ic: "inv_came g s" and sc: "inv_scores g s"
  shows "cameFrom s (key (startPos g)) = None"
proof (rule ccontr)
  assume "cameFrom s (key (startPos g)) \<noteq> None"
  then obtain p where "cameFrom s (key (startPos g)) = Some p" by auto
  then obtain vp vk where vp: "gScore s (key p) = Some (Num vp)"
    and vk: "gScore s (key (startPos g)) = Some (Num vk)" "vp < vk"
    using ic unfolding inv_came_def by blast
  have "vk = 0" using vk(1) sc by (simp add: inv_scores_def)
  moreover have "0 \<le> vp" using inv_scores_Num[OF sc vp] by simp
  ultimately show False using vk(2) by simp
qed

lemma reconstruct_total:
  assumes ic: "inv_came g s" and sc: "inv_scores g s"
  shows "gScore s (key c) = Some (Num v) \<Longrightarrow>
         \<exists>pth. reconstruct (cameFrom s) c acc = Some (pth @ acc) \<and> linked g (startPos g) pth \<and>
               last (startPos g # pth) = c \<and> int (length pth) \<le> v \<and>
               startPos g \<notin> set pth"
proof (induction "nat v" arbitrary: c v acc rule: less_induct)
  case less
  have v0: "0 \<le> v" using inv_scores_Num[OF sc less.prems] by simp
  show ?case
  proof (cases "cameFrom s (key c)")
    case None
    have "key c = key (startPos g)" using ic less.prems None unfolding inv_came_def by blast
    then have "c = startPos g" by (simp add: key_eq_iff)
    moreover have "reconstruct (cameFrom s) c acc = Some acc"
      using None by (subst reconstruct.simps) simp
    ultimately show ?thesis using v0 by simp
  next
    case (Some prev)
    then obtain vp vk where nb: "unkey (key c) \<in> set (getNeighbors g (row prev) (col prev))"
      and vp: "gScore s (key prev) = Some (Num vp)" and vk: "gScore s (key c) = Some (Num vk)" "vp < vk"
      using ic unfolding inv_came_def by blast
    have vkv: "vk = v" using vk(1) less.prems by simp
    have vp0: "0 \<le> vp" using inv_scores_Num[OF sc vp] by simp
    have "nat vp < nat v" using vk(2) vkv vp0 by simp
    from less.hyps[OF this vp, of "c # acc"] obtain pth where
      p: "reconstruct (cameFrom s) prev (c # acc) = Some (pth @ c # acc)"
         "linked g (startPos g) pth" "last (startPos g # pth) = prev" "int (length pth) \<le> vp"
         "startPos g \<notin> set pth"
      by blast
    have "c \<noteq> startPos g" using Some no_cameFrom_start[OF ic sc] by auto
    have "reconstruct (cameFrom s) c acc = Some ((pth @ [c]) @ acc)"
      using Some p(1) by (subst reconstruct.simps) simp
    moreover have "linked g (startPos g) (pth @ [c])"
      using p(2,3) nb by (simp add: linked_append)
    moreover have "int (length (pth @ [c])) \<le> v" using p(4) vk(2) vkv by simp
    moreover have "startPos g \<notin> set (pth @ [c])" using p(5) \<open>c \<noteq> startPos g\<close> by simp
    ultimately show ?thesis by (intro exI[of _ "pth @ [c]"]) simp
  qed
qed

subsection \<open>The state in which the search ends\<close>

lemma searchLoop_final:
  assumes "loop_inv g s"
  shows "\<exists>s'. loop_inv g s' \<and>
      ((openSet s' = [] \<and>
        searchLoop g s = Some \<lparr>found = False, path = [], visitedSet = visited s'\<rparr>) \<or>
       (\<exists>p ps j v pth. openSet s' = p # ps \<and> lowest (fScore s') ps p 0 1 = (endPos g, j) \<and>
          gScore s' (key (endPos g)) = Some (Num v) \<and>
          linked g (startPos g) pth \<and> last (startPos g # pth) = endPos g \<and> int (length pth) \<le> v \<and>
          startPos g \<notin> set pth \<and>
          searchLoop g s = Some \<lparr>found = True, path = pth, visitedSet = visited s'\<rparr>))"
  using assms
proof (induction rule: searchLoop_induct)
  case (empty s)
  then show ?case using searchLoop_empty by blast
next
  case (found s p ps j)
  have sc: "inv_scores g s" and io: "inv_open g s" and ic: "inv_came g s"
    using found(1) by (simp_all add: loop_inv_def inv_inner_def)
  have "endPos g \<in> set (openSet s)" using lowest_openSet[OF found(3)] found(2) by (metis nth_mem)
  then have "gScore s (key (endPos g)) \<noteq> None" using io unfolding inv_open_def by blast
  then obtain v where v: "gScore s (key (endPos g)) = Some (Num v)"
    using inv_scores_Num[OF sc] by fastforce
  from reconstruct_total[OF ic sc v, of "[]"] obtain pth where
    p: "reconstruct (cameFrom s) (endPos g) [] = Some pth" "linked g (startPos g) pth"
       "last (startPos g # pth) = endPos g" "int (length pth) \<le> v" "startPos g \<notin> set pth" by auto
  have "searchLoop g s = Some \<lparr>found = True, path = pth, visitedSet = visited s\<rparr>"
    using searchLoop_found[OF found(2,3) refl] p(1) by simp
  with found v p show ?case by blast
next
  case (step s p ps c j)
  then show ?case using searchLoop_step[OF step(2,3,4)] by simp
qed

subsection \<open>What \<open>findPath\<close> returns\<close>

lemma findPath_final:
  "\<exists>s'. loop_inv g s' \<and>
      ((openSet s' = [] \<and>
        findPath g = Some (\<lparr>found = False, path = [], visitedSet = visited s'\<rparr>,
                           renderGrid g [] (visited s'))) \<or>
       (\<exists>p ps j v pth. openSet s' = p # ps \<and> lowest (fScore s') ps p 0 1 = (endPos g, j) \<and>
          gScore s' (key (endPos g)) = Some (Num v) \<and>
          linked g (startPos g) pth \<and> last (startPos g # pth) = endPos g \<and> int (length pth) \<le> v \<and>
          startPos g \<notin> set pth \<and>
          findPath g = Some (\<lparr>found = True, path = pth, visitedSet = visited s'\<rparr>,
                             renderGrid g pth (visited s'))))"
proof -
  from searchLoop_final[OF inv_initState[of g]] obtain s' where i: "loop_inv g s'" and
    d: "(openSet s' = [] \<and>
        searchLoop g (initState g) = Some \<lparr>found = False, path = [], visitedSet = visited s'\<rparr>) \<or>
       (\<exists>p ps j v pth. openSet s' = p # ps \<and> lowest (fScore s') ps p 0 1 = (endPos g, j) \<and>
          gScore s' (key (endPos g)) = Some (Num v) \<and>
          linked g (startPos g) pth \<and> last (startPos g # pth) = endPos g \<and> int (length pth) \<le> v \<and>
          startPos g \<notin> set pth \<and>
          searchLoop g (initState g) = Some \<lparr>found = True, path = pth, visitedSet = visited s'\<rparr>)"
    by blast
  from d show ?thesis
  proof
    assume "openSet s' = [] \<and>
        searchLoop g (initState g) = Some \<lparr>found = False, path = [], visitedSet = visited s'\<rparr>"
    then show ?thesis using i by (intro exI[of _ s']) (simp add: findPath_def)
  next
    assume "\<exists>p ps j v pth. openSet s' = p # ps \<and> lowest (fScore s') ps p 0 1 = (endPos g, j) \<and>
          gScore s' (key (endPos g)) = Some (Num v) \<and>
          linked g (startPos g) pth \<and> last (startPos g # pth) = endPos g \<and> int (length pth) \<le> v \<and>
          startPos g \<notin> set pth \<and>
          searchLoop g (initState g) = Some \<lparr>found = True, path = pth, visitedSet = visited s'\<rparr>"
    then obtain p ps j v pth where "openSet s' = p # ps" "lowest (fScore s') ps p 0 1 = (endPos g, j)"
          "gScore s' (key (endPos g)) = Some (Num v)"
          "linked g (startPos g) pth" "last (startPos g # pth) = endPos g" "int (length pth) \<le> v"
          "startPos g \<notin> set pth"
          "searchLoop g (initState g) = Some \<lparr>found = True, path = pth, visitedSet = visited s'\<rparr>"
      by blast
    then show ?thesis using i by (intro exI[of _ s']) (simp add: findPath_def)
  qed
qed

lemma linked_passable: "linked g p xs \<Longrightarrow> q \<in> set xs \<Longrightarrow> passable g q"
  by (induction xs arbitrary: p) (auto simp: in_getNeighbors)

lemma linked_adjacent: "linked g p xs \<Longrightarrow> Suc i < length xs \<Longrightarrow> adjacent (xs ! i) (xs ! Suc i)"
proof (induction xs arbitrary: p i)
  case Nil
  then show ?case by simp
next
  case (Cons x xs)
  show ?case
  proof (cases i)
    case 0
    then show ?thesis using Cons.prems by (cases xs) (simp_all add: in_getNeighbors)
  next
    case (Suc k)
    then show ?thesis using Cons.prems Cons.IH[of x k] by simp
  qed
qed

lemma linked_hd: "linked g p xs \<Longrightarrow> xs \<noteq> [] \<Longrightarrow> hd xs \<in> set (getNeighbors g (row p) (col p))"
  by (cases xs) simp_all

lemma visited_reachable:
  assumes "loop_inv g s" and "k \<in> visited s"
  shows "unkey k \<in> reachable g"
proof -
  have "inv_open g s" "inv_reach g s" using assms(1) by (simp_all add: loop_inv_def inv_inner_def)
  then show ?thesis using assms(2) unfolding inv_open_def inv_reach_def by blast
qed

lemma reachable_passable: "p \<in> reachable g \<Longrightarrow> passable g (startPos g) \<Longrightarrow> passable g p"
  by (induction rule: reachable.induct) (simp_all add: in_getNeighbors)

lemma reachable_scored:
  assumes i: "loop_inv g s" and e: "openSet s = []" and p: "p \<in> reachable g"
  shows "gScore s (key p) \<noteq> None"
  using p
proof (induction rule: reachable.induct)
  case reachable_start
  have "inv_scores g s" using i by (simp add: loop_inv_def inv_inner_def)
  then show ?case by (simp add: inv_scores_def)
next
  case (reachable_step p n)
  have sc: "inv_scores g s" and ru: "relaxed_upto g (startPos g) UNIV s"
    using i by (simp_all add: loop_inv_def inv_inner_def)
  from reachable_step.IH obtain x where "gScore s (key p) = Some x" by auto
  with inv_scores_Num[OF sc this] obtain vp where "gScore s (key p) = Some (Num vp)" by auto
  then have "\<exists>vn. gScore s (key n) = Some (Num vn) \<and> vn \<le> vp + 1"
    using ru e reachable_step.hyps(2) unfolding relaxed_upto_def by auto
  then show ?case by auto
qed

subsection \<open>Steps of \<open>getNeighbors\<close> are the steps of obstacle-free 4-connected routes\<close>

lemma neighbor_step_iff:
  fixes n p :: pos
  shows "n \<in> set (getNeighbors g (row p) (col p)) \<longleftrightarrow>
     \<bar>row n - row p\<bar> + \<bar>col n - col p\<bar> = 1 \<and>
     0 \<le> row n \<and> row n < rows g \<and> 0 \<le> col n \<and> col n < cols g \<and> (row n, col n) \<notin> walls g"
proof -
  have a: "adjacent p n \<longleftrightarrow> \<bar>row n - row p\<bar> + \<bar>col n - col p\<bar> = 1"
    unfolding adjacent_def heuristic_def by linarith
  have "n \<in> set (getNeighbors g (row p) (col p)) \<longleftrightarrow> adjacent p n \<and> passable g n"
    by (rule in_getNeighbors)
  then show ?thesis unfolding a passable_def isWall_def by simp
qed

lemma connected_eq_reachable: "connected g = reachable g"
proof (intro set_eqI iffI)
  fix p assume "p \<in> connected g"
  then show "p \<in> reachable g"
  proof (induction rule: connected.induct)
    case connected_start
    show ?case by (rule reachable_start)
  next
    case (connected_step p n)
    then have "n \<in> set (getNeighbors g (row p) (col p))" by (simp add: neighbor_step_iff)
    with connected_step.IH show ?case by (rule reachable_step)
  qed
next
  fix p assume "p \<in> reachable g"
  then show "p \<in> connected g"
  proof (induction rule: reachable.induct)
    case reachable_start
    show ?case by (rule connected_start)
  next
    case (reachable_step p n)
    then show ?case by (auto simp: neighbor_step_iff intro: connected_step)
  qed
qed

subsection \<open>\<open>renderGrid\<close> only writes the tiles\<close>

lemma renderTile_grid_update [simp]: "renderTile (g\<lparr>grid := G\<rparr>) p v r c = renderTile g p v r c"
  by (simp add: renderTile_def isStart_def isEnd_def isWall_def)

lemma renderCell_fields: "\<exists>G. renderCell p v r g c = g\<lparr>grid := G\<rparr>"
  unfolding renderCell_def by (rule exI) (rule refl)

lemma renderCell_grid:
  "grid (renderCell p v r g c) r' c' =
     (if r' = r \<and> c' = c then renderTile g p v r c else grid g r' c')"
  by (simp add: renderCell_def)

lemma render_cols_fields: "\<exists>G. foldl (renderCell p v r) g cs = g\<lparr>grid := G\<rparr>"
proof (induction cs arbitrary: g)
  case Nil
  show ?case by (intro exI[of _ "grid g"]) simp
next
  case (Cons c cs)
  obtain G where G: "renderCell p v r g c = g\<lparr>grid := G\<rparr>" using renderCell_fields by blast
  from Cons.IH[of "g\<lparr>grid := G\<rparr>"] show ?case by (auto simp: G)
qed

lemma renderCell_renderTile [simp]:
  "renderTile (renderCell p v r g c) p' v' r' c' = renderTile g p' v' r' c'"
proof -
  obtain G where "renderCell p v r g c = g\<lparr>grid := G\<rparr>" using renderCell_fields by blast
  then show ?thesis by simp
qed

lemma render_cols_grid:
  "grid (foldl (renderCell p v r) g cs) r' c' =
     (if r' = r \<and> c' \<in> set cs then renderTile g p v r c' else grid g r' c')"
proof (induction cs arbitrary: g)
  case Nil
  show ?case by simp
next
  case (Cons c cs)
  show ?case
    by (simp only: foldl_Cons Cons.IH renderCell_renderTile renderCell_grid) auto
qed

lemma renderRow_fields: "\<exists>G. renderRow p v g r = g\<lparr>grid := G\<rparr>"
  unfolding renderRow_def by (rule render_cols_fields)

lemma renderRow_grid:
  "grid (renderRow p v g r) r' c' =
     (if r' = r \<and> 0 \<le> c' \<and> c' < cols g then renderTile g p v r c' else grid g r' c')"
  unfolding renderRow_def by (simp only: render_cols_grid) auto

lemma renderRow_cols [simp]: "cols (renderRow p v g r) = cols g"
proof -
  obtain G where "renderRow p v g r = g\<lparr>grid := G\<rparr>" using renderRow_fields by blast
  then show ?thesis by simp
qed

lemma renderRow_renderTile [simp]: "renderTile (renderRow p v g r) p' v' r' c' = renderTile g p' v' r' c'"
proof -
  obtain G where "renderRow p v g r = g\<lparr>grid := G\<rparr>" using renderRow_fields by blast
  then show ?thesis by simp
qed

lemma render_rows_fields: "\<exists>G. foldl (renderRow p v) g rs = g\<lparr>grid := G\<rparr>"
proof (induction rs arbitrary: g)
  case Nil
  show ?case by (intro exI[of _ "grid g"]) simp
next
  case (Cons r rs)
  obtain G where G: "renderRow p v g r = g\<lparr>grid := G\<rparr>" using renderRow_fields by blast
  from Cons.IH[of "g\<lparr>grid := G\<rparr>"] show ?case by (auto simp: G)
qed

lemma render_rows_grid:
  "grid (foldl (renderRow p v) g rs) r' c' =
     (if r' \<in> set rs \<and> 0 \<le> c' \<and> c' < cols g then renderTile g p v r' c' else grid g r' c')"
proof (induction rs arbitrary: g)
  case Nil
  show ?case by simp
next
  case (Cons r rs)
  show ?case
    by (simp only: foldl_Cons Cons.IH renderRow_cols renderRow_renderTile renderRow_grid) auto
qed

lemma renderGrid_fields: "\<exists>G. renderGrid g p v = g\<lparr>grid := G\<rparr>"
  unfolding renderGrid_def by (rule render_rows_fields)

lemma renderGrid_grid:
  "grid (renderGrid g p v) r c =
     (if 0 \<le> r \<and> r < rows g \<and> 0 \<le> c \<and> c < cols g then renderTile g p v r c else grid g r c)"
  unfolding renderGrid_def by (simp only: render_rows_grid) auto

lemma renderGrid_other_fields:
  "rows (renderGrid g p v) = rows g" "cols (renderGrid g p v) = cols g"
  "walls (renderGrid g p v) = walls g" "startPos (renderGrid g p v) = startPos g"
  "endPos (renderGrid g p v) = endPos g" "isDragging (renderGrid g p v) = isDragging g"
  "dragType (renderGrid g p v) = dragType g"
proof -
  obtain G where G: "renderGrid g p v = g\<lparr>grid := G\<rparr>" using renderGrid_fields by blast
  show "rows (renderGrid g p v) = rows g" "cols (renderGrid g p v) = cols g"
    "walls (renderGrid g p v) = walls g" "startPos (renderGrid g p v) = startPos g"
    "endPos (renderGrid g p v) = endPos g" "isDragging (renderGrid g p v) = isDragging g"
    "dragType (renderGrid g p v) = dragType g"
    by (simp_all add: G)
qed

lemma renderGrid_renderTile:
  "renderTile (renderGrid g p v) p' v' r c = renderTile g p' v' r c"
proof -
  obtain G where "renderGrid g p v = g\<lparr>grid := G\<rparr>" using renderGrid_fields by blast
  then show ?thesis by simp
qed

lemma renderGrid_idem: "renderGrid (renderGrid g p v) p v = renderGrid g p v"
proof -
  obtain G1 where G1: "renderGrid g p v = g\<lparr>grid := G1\<rparr>" using renderGrid_fields by blast
  obtain G2 where G2: "renderGrid (renderGrid g p v) p v = (renderGrid g p v)\<lparr>grid := G2\<rparr>"
    using renderGrid_fields by blast
  have "grid (renderGrid (renderGrid g p v) p v) r c = grid (renderGrid g p v) r c" for r c
    by (simp add: renderGrid_grid renderGrid_other_fields renderGrid_renderTile)
  then have "grid (renderGrid (renderGrid g p v) p v) = grid (renderGrid g p v)"
    by (intro ext)
  then have "G2 = G1" by (simp add: G2) (simp add: G1)
  then show ?thesis by (simp add: G2) (simp add: G1)
qed

subsection \<open>The search reads the dimensions, the walls, the start and the end only\<close>

lemma getNeighbors_cong:
  "rows g' = rows g \<Longrightarrow> cols g' = cols g \<Longrightarrow> walls g' = walls g \<Longrightarrow>
   getNeighbors g' r c = getNeighbors g r c"
  by (simp add: getNeighbors_filter passable_def isWall_def cong: filter_cong)

lemma searchLoop_cong:
  assumes "loop_inv g s" and r: "rows g' = rows g" and c: "cols g' = cols g"
    and w: "walls g' = walls g" and e: "endPos g' = endPos g"
  shows "searchLoop g' s = searchLoop g s"
  using assms(1)
proof (induction rule: searchLoop_induct)
  case (empty s)
  then show ?case by (simp add: searchLoop_empty)
next
  case (found s p ps j)
  have "lowest (fScore s) ps p 0 1 = (endPos g', j)" using found(3) e by simp
  from searchLoop_found[OF found(2) this refl] searchLoop_found[OF found(2,3) refl]
  show ?case using e by simp
next
  case (step s p ps c j)
  have ne: "c \<noteq> endPos g'" using step(4) e by simp
  have "expand g' s c j = expand g s c j"
    by (simp add: expand_def e getNeighbors_cong[OF r \<open>cols g' = cols g\<close> w])
  then show ?case
    using searchLoop_step[OF step(2,3) ne] searchLoop_step[OF step(2,3,4)] step(6) by simp
qed

lemma findPath_cong:
  assumes "rows g' = rows g" and "cols g' = cols g" and "walls g' = walls g"
    and "startPos g' = startPos g" and "endPos g' = endPos g"
  shows "map_option fst (findPath g') = map_option fst (findPath g)"
proof -
  have i: "initState g' = initState g" using assms by (simp add: initState_def)
  have "searchLoop g' (initState g) = searchLoop g (initState g)"
    using searchLoop_cong[OF inv_initState assms(1,2,3,5)] .
  then show ?thesis by (simp add: findPath_def i split: option.splits)
qed

lemma findPath_rendered:
  assumes "findPath g = Some (r, g1)"
  shows "g1 = renderGrid g (path r) (visitedSet r)" and "findPath g1 = Some (r, g1)"
proof -
  from assms have l: "searchLoop g (initState g) = Some r"
    and g1: "g1 = renderGrid g (path r) (visitedSet r)"
    by (auto simp: findPath_def split: option.splits)
  show "g1 = renderGrid g (path r) (visitedSet r)" by (rule g1)
  have f: "rows g1 = rows g" "cols g1 = cols g" "walls g1 = walls g" "startPos g1 = startPos g"
    "endPos g1 = endPos g"
    by (simp_all add: g1 renderGrid_other_fields)
  have "initState g1 = initState g" using f by (simp add: initState_def)
  moreover have "searchLoop g1 (initState g) = searchLoop g (initState g)"
    using searchLoop_cong[OF inv_initState f(1,2,3,5)] .
  ultimately have "findPath g1 = Some (r, renderGrid g1 (path r) (visitedSet r))"
    using l by (simp add: findPath_def)
  then show "findPath g1 = Some (r, g1)" by (simp add: g1 renderGrid_idem)
qed

subsection \<open>The scan selects the first cell with the lowest \<open>fScore\<close>\<close>

lemma lt_irrefl: "\<not> lt a a"
  by (cases a) simp_all

lemma lt_trans: "lt a b \<Longrightarrow> lt b c \<Longrightarrow> lt a c"
  by (cases a; cases b; cases c) simp_all

lemma lt_below: "lt c b \<Longrightarrow> \<not> lt a b \<Longrightarrow> a \<noteq> NaN \<Longrightarrow> lt c a"
  by (cases a; cases b; cases c) simp_all

lemma lowest_least:
  "lowest fS ps cur idx i = (c, j) \<Longrightarrow>
   (\<forall>m \<in> S. \<not> lt (get fS (key m)) (get fS (key cur))) \<Longrightarrow>
   (\<forall>m \<in> S \<union> set ps. \<not> lt (get fS (key m)) (get fS (key c)))"
proof (induction ps arbitrary: cur idx i S)
  case Nil
  then show ?case by simp
next
  case (Cons p ps)
  show ?case
  proof (cases "lt (get fS (key p)) (get fS (key cur))")
    case True
    with Cons.prems(1) have l: "lowest fS ps p i (Suc i) = (c, j)" by simp
    have "\<forall>m \<in> insert p S. \<not> lt (get fS (key m)) (get fS (key p))"
      using Cons.prems(2) True lt_irrefl lt_trans by blast
    from Cons.IH[OF l this] show ?thesis by simp
  next
    case False
    with Cons.prems(1) have l: "lowest fS ps cur idx (Suc i) = (c, j)" by simp
    have "\<forall>m \<in> insert p S. \<not> lt (get fS (key m)) (get fS (key cur))"
      using Cons.prems(2) False by blast
    from Cons.IH[OF l this] show ?thesis by simp
  qed
qed

lemma lowest_openSet_least:
  assumes "lowest fS ps p 0 1 = (c, j)" and "m \<in> set (p # ps)"
  shows "\<not> lt (get fS (key m)) (get fS (key c))"
  using lowest_least[OF assms(1), of "{p}"] assms(2) lt_irrefl by auto

lemma lowest_first:
  "lowest fS ps cur idx i = (c, j) \<Longrightarrow> length pre = i \<Longrightarrow> idx < i \<Longrightarrow> pre ! idx = cur \<Longrightarrow>
   (\<forall>q \<in> set (pre @ ps). get fS (key q) \<noteq> NaN) \<Longrightarrow>
   (\<forall>k < i. \<not> lt (get fS (key (pre ! k))) (get fS (key cur))) \<Longrightarrow>
   (\<forall>k < idx. lt (get fS (key cur)) (get fS (key (pre ! k)))) \<Longrightarrow>
   (\<forall>k < j. lt (get fS (key c)) (get fS (key ((pre @ ps) ! k))))"
proof (induction ps arbitrary: pre cur idx i)
  case Nil
  then show ?case by simp
next
  case (Cons p ps)
  have len: "length (pre @ [p]) = Suc i" using Cons.prems(2) by simp
  have 1: "\<forall>q \<in> set ((pre @ [p]) @ ps). get fS (key q) \<noteq> NaN" using Cons.prems(5) by simp
  show ?case
  proof (cases "lt (get fS (key p)) (get fS (key cur))")
    case True
    with Cons.prems(1) have l: "lowest fS ps p i (Suc i) = (c, j)" by simp
    have 0: "(pre @ [p]) ! i = p" using Cons.prems(2) by (simp add: nth_append)
    have 2: "\<forall>k < Suc i. \<not> lt (get fS (key ((pre @ [p]) ! k))) (get fS (key p))"
    proof (intro allI impI)
      fix k assume "k < Suc i"
      show "\<not> lt (get fS (key ((pre @ [p]) ! k))) (get fS (key p))"
      proof (cases "k < i")
        case True
        then have "\<not> lt (get fS (key (pre ! k))) (get fS (key cur))" using Cons.prems(6) by blast
        then have "\<not> lt (get fS (key (pre ! k))) (get fS (key p))"
          using \<open>lt (get fS (key p)) (get fS (key cur))\<close> lt_trans by blast
        then show ?thesis using True Cons.prems(2) by (simp add: nth_append)
      next
        case False
        then have "k = i" using \<open>k < Suc i\<close> by simp
        then show ?thesis using Cons.prems(2) lt_irrefl by (simp add: nth_append)
      qed
    qed
    have 3: "\<forall>k < i. lt (get fS (key p)) (get fS (key ((pre @ [p]) ! k)))"
    proof (intro allI impI)
      fix k assume k: "k < i"
      then have "\<not> lt (get fS (key (pre ! k))) (get fS (key cur))" using Cons.prems(6) by blast
      moreover have "get fS (key (pre ! k)) \<noteq> NaN" using Cons.prems(2,5) k by simp
      ultimately have "lt (get fS (key p)) (get fS (key (pre ! k)))"
        using True lt_below by blast
      then show "lt (get fS (key p)) (get fS (key ((pre @ [p]) ! k)))"
        using k Cons.prems(2) by (simp add: nth_append)
    qed
    have "\<forall>k < j. lt (get fS (key c)) (get fS (key (((pre @ [p]) @ ps) ! k)))"
      using Cons.IH[OF l len _ 0 1 2 3] by simp
    then show ?thesis by simp
  next
    case False
    with Cons.prems(1) have l: "lowest fS ps cur idx (Suc i) = (c, j)" by simp
    have 0: "(pre @ [p]) ! idx = cur" using Cons.prems(2,3,4) by (simp add: nth_append)
    have 2: "\<forall>k < Suc i. \<not> lt (get fS (key ((pre @ [p]) ! k))) (get fS (key cur))"
      using Cons.prems(2,6) False by (auto simp: nth_append less_Suc_eq)
    have 3: "\<forall>k < idx. lt (get fS (key cur)) (get fS (key ((pre @ [p]) ! k)))"
      using Cons.prems(2,3,7) by (simp add: nth_append)
    have "\<forall>k < j. lt (get fS (key c)) (get fS (key (((pre @ [p]) @ ps) ! k)))"
      using Cons.IH[OF l len _ 0 1 2 3] Cons.prems(3) by simp
    then show ?thesis by simp
  qed
qed

lemma lowest_openSet_first:
  assumes "lowest fS ps p 0 1 = (c, j)" and "\<forall>q \<in> set (p # ps). get fS (key q) \<noteq> NaN"
  shows "\<forall>k < j. lt (get fS (key c)) (get fS (key ((p # ps) ! k)))"
  using lowest_first[OF assms(1), of "[p]"] assms(2) lt_irrefl by simp

subsection \<open>Cells between the start and the end\<close>

lemma heuristic_triangle: "heuristic a c \<le> heuristic a b + heuristic b c"
  by (simp add: heuristic_def)

lemma heuristic_zero: "heuristic a b = 0 \<longleftrightarrow> a = b"
  by (cases a, cases b) (auto simp: heuristic_def)

lemma heuristic_sym: "heuristic a b = heuristic b a"
  by (simp add: heuristic_def)

lemma between_pred:
  assumes b: "heuristic s n + heuristic n e = heuristic s e" and pos: "0 < heuristic s n"
  shows "\<exists>p. adjacent p n \<and> heuristic s p = heuristic s n - 1 \<and>
             heuristic s p + heuristic p e = heuristic s e"
proof -
  have rows: "\<bar>row s - row n\<bar> + \<bar>row n - row e\<bar> = \<bar>row s - row e\<bar>"
    and cols: "\<bar>col s - col n\<bar> + \<bar>col n - col e\<bar> = \<bar>col s - col e\<bar>"
    using b by (simp_all add: heuristic_def)
  have "row n < row s \<or> row s < row n \<or> (row n = row s \<and> col n < col s) \<or>
        (row n = row s \<and> col s < col n)"
    using pos unfolding heuristic_def by linarith
  then consider "row n < row s" | "row s < row n" | "row n = row s" "col n < col s"
    | "row n = row s" "col s < col n"
    by blast
  then show ?thesis
  proof cases
    case 1
    show ?thesis
      using 1 rows cols b
      by (intro exI[of _ "n\<lparr>row := row n + 1\<rparr>"]) (simp add: adjacent_def heuristic_def)
  next
    case 2
    show ?thesis
      using 2 rows cols b
      by (intro exI[of _ "n\<lparr>row := row n - 1\<rparr>"]) (simp add: adjacent_def heuristic_def)
  next
    case 3
    show ?thesis
      using 3 rows cols b
      by (intro exI[of _ "n\<lparr>col := col n + 1\<rparr>"]) (simp add: adjacent_def heuristic_def)
  next
    case 4
    show ?thesis
      using 4 rows cols b
      by (intro exI[of _ "n\<lparr>col := col n - 1\<rparr>"]) (simp add: adjacent_def heuristic_def)
  qed
qed

lemma between_passable:
  assumes b: "heuristic s n + heuristic n e = heuristic s e"
    and w: "walls g = {}" and s: "passable g s" and e: "passable g e"
  shows "passable g n"
proof -
  have rows: "\<bar>row s - row n\<bar> + \<bar>row n - row e\<bar> = \<bar>row s - row e\<bar>"
    and cols: "\<bar>col s - col n\<bar> + \<bar>col n - col e\<bar> = \<bar>col s - col e\<bar>"
    using b by (simp_all add: heuristic_def)
  have "0 \<le> row n" "row n < rows g" "0 \<le> col n" "col n < cols g"
    using rows cols s e unfolding passable_def by linarith+
  then show ?thesis using w by (simp add: passable_def isWall_def)
qed

lemma linked_heuristic: "linked g p xs \<Longrightarrow> heuristic p (last (p # xs)) \<le> int (length xs)"
proof (induction xs arbitrary: p)
  case Nil
  show ?case by (simp add: heuristic_def)
next
  case (Cons n ns)
  have "adjacent p n" "linked g n ns" using Cons.prems by (simp_all add: in_getNeighbors)
  then have "heuristic p n = 1" "heuristic n (last (n # ns)) \<le> int (length ns)"
    using Cons.IH by (simp_all add: adjacent_def)
  then show ?case using heuristic_triangle[of p "last (n # ns)" n] by simp
qed

subsection \<open>Without walls the search is optimal\<close>

lemma open_or_settled:
  assumes i: "loop_inv g s" and w: "walls g = {}"
    and sb: "passable g (startPos g)" and eb: "passable g (endPos g)"
  shows "heuristic (startPos g) n + heuristic n (endPos g) = heuristic (startPos g) (endPos g) \<Longrightarrow>
     (\<exists>m \<in> set (openSet s). \<exists>fm. fScore s (key m) = Some (Num fm) \<and>
          fm \<le> heuristic (startPos g) (endPos g)) \<or>
     (key n \<notin> key ` set (openSet s) \<and> gScore s (key n) = Some (Num (heuristic (startPos g) n)))"
proof (induction "nat (heuristic (startPos g) n)" arbitrary: n rule: less_induct)
  case less
  have sc: "inv_scores g s" and ru: "relaxed_upto g (startPos g) UNIV s"
    using i by (simp_all add: loop_inv_def inv_inner_def)
  have scored: "\<And>k x. gScore s k = Some x \<Longrightarrow>
        (\<exists>v. x = Num v \<and> heuristic (startPos g) (unkey k) \<le> v \<and>
             fScore s k = Some (Num (v + heuristic (unkey k) (endPos g))))"
    using sc unfolding inv_scores_def by blast
  have settle: "gScore s (key n) = Some (Num (heuristic (startPos g) n)) \<Longrightarrow> ?case"
  proof -
    assume gn: "gScore s (key n) = Some (Num (heuristic (startPos g) n))"
    show ?case
    proof (cases "key n \<in> key ` set (openSet s)")
      case True
      then have "n \<in> set (openSet s)" by (auto simp: key_eq_iff)
      moreover have "fScore s (key n) = Some (Num (heuristic (startPos g) n + heuristic n (endPos g)))"
        using scored[OF gn] by simp
      ultimately show ?thesis using less.prems by auto
    next
      case False
      then show ?thesis using gn by simp
    qed
  qed
  show ?case
  proof (cases "heuristic (startPos g) n = 0")
    case True
    then have "n = startPos g" by (simp add: heuristic_zero)
    moreover have "gScore s (key (startPos g)) = Some (Num 0)" using sc by (simp add: inv_scores_def)
    ultimately show ?thesis using settle True by simp
  next
    case False
    then have pos: "0 < heuristic (startPos g) n"
      using heuristic_nonneg[of "startPos g" n] by simp
    from between_pred[OF less.prems pos] obtain p where p: "adjacent p n"
      "heuristic (startPos g) p = heuristic (startPos g) n - 1"
      "heuristic (startPos g) p + heuristic p (endPos g) = heuristic (startPos g) (endPos g)"
      by blast
    have "nat (heuristic (startPos g) p) < nat (heuristic (startPos g) n)" using p(2) pos by simp
    from less.hyps[OF this p(3)] show ?thesis
    proof
      assume "\<exists>m \<in> set (openSet s). \<exists>fm. fScore s (key m) = Some (Num fm) \<and>
          fm \<le> heuristic (startPos g) (endPos g)"
      then show ?thesis by simp
    next
      assume a: "key p \<notin> key ` set (openSet s) \<and>
         gScore s (key p) = Some (Num (heuristic (startPos g) p))"
      have "n \<in> set (getNeighbors g (row p) (col p))"
        using p(1) between_passable[OF less.prems w sb eb] by (simp add: in_getNeighbors)
      then obtain vn where vn: "gScore s (key n) = Some (Num vn)" "vn \<le> heuristic (startPos g) p + 1"
        using ru a unfolding relaxed_upto_def by blast
      have "heuristic (startPos g) n \<le> vn" using scored[OF vn(1)] by simp
      then have "vn = heuristic (startPos g) n" using vn(2) p(2) by simp
      then show ?thesis using settle vn(1) by simp
    qed
  qed
qed

subsection \<open>Runs of the search on concrete grids\<close>

lemmas eval_simps = expand_def splice1_def relax_def getNeighbors_def directions_def pushNeighbor_def
   isWall_def Let_def get_def key_def heuristic_def list_ex_iff

lemma search_adjacent:
  "map_option fst (findPath (demo \<lparr>row = 15, col = 14\<rparr> \<lparr>row = 15, col = 15\<rparr> {})) =
     Some \<lparr>found = True, path = [\<lparr>row = 15, col = 15\<rparr>], visitedSet = {(15, 14)}\<rparr>"
  unfolding findPath_def initState_def demo_def
  apply (subst searchLoop.simps)
  apply (simp add: eval_simps)
  apply (subst searchLoop.simps)
  apply (simp add: eval_simps)
  apply (subst reconstruct.simps, simp add: key_def)
  apply (subst reconstruct.simps, simp add: key_def)
  done

lemma search_two_steps:
  "map_option fst (findPath (demo \<lparr>row = 15, col = 13\<rparr> \<lparr>row = 15, col = 15\<rparr> {})) =
     Some \<lparr>found = True, path = [\<lparr>row = 15, col = 14\<rparr>, \<lparr>row = 15, col = 15\<rparr>],
           visitedSet = {(15, 14), (15, 13)}\<rparr>"
  unfolding findPath_def initState_def demo_def
  apply (subst searchLoop.simps)
  apply (simp add: eval_simps)
  apply (subst searchLoop.simps)
  apply (simp add: eval_simps)
  apply (subst searchLoop.simps)
  apply (simp add: eval_simps)
  apply (subst reconstruct.simps, simp add: key_def)
  apply (subst reconstruct.simps, simp add: key_def)
  apply (subst reconstruct.simps, simp add: key_def)
  done

lemma search_same:
  "map_option fst (findPath (demo \<lparr>row = 5, col = 5\<rparr> \<lparr>row = 5, col = 5\<rparr> {})) =
     Some \<lparr>found = True, path = [], visitedSet = {}\<rparr>"
  unfolding findPath_def initState_def demo_def
  apply (subst searchLoop.simps)
  apply (simp add: eval_simps)
  apply (subst reconstruct.simps, simp add: key_def)
  done

section \<open>The claims\<close>

text \<open>
  C9: for every grid model, with any dimensions, walls, start and end, one call of \<open>findPath\<close>
  returns: the main loop and the reconstruction loop both come to an end.
\<close>

theorem findPath_terminates: "\<exists>r g'. findPath g = Some (r, g')"
  using findPath_final[of g] by blast

theorem findPath_terminates_witness:
  "\<exists>r g'. findPath (demo \<lparr>row = 15, col = 13\<rparr> \<lparr>row = 15, col = 15\<rparr> {}) = Some (r, g')"
  using findPath_terminates[of "demo \<lparr>row = 15, col = 13\<rparr> \<lparr>row = 15, col = 15\<rparr> {}"] .

text \<open>
  C10: when the search reports that it found a path, the end cell is not in the visited set:
  the loop returns on selecting the end, before it would add it.
\<close>

theorem end_not_visited:
  "\<exists>r g'. findPath g = Some (r, g') \<and> (found r \<longrightarrow> key (endPos g) \<notin> visitedSet r)"
proof -
  from findPath_final[of g] obtain s' :: search_state and r g' where i: "loop_inv g s'"
    and r: "findPath g = Some (r, g')" "visitedSet r = visited s'"
    by fastforce
  have "inv_open g s'" using i by (simp add: loop_inv_def inv_inner_def)
  then have "key (endPos g) \<notin> visited s'" by (simp add: inv_open_def)
  then show ?thesis using r by simp
qed

theorem end_not_visited_witness:
  "\<exists>r g'. findPath (demo \<lparr>row = 15, col = 13\<rparr> \<lparr>row = 15, col = 15\<rparr> {}) = Some (r, g') \<and>
     found r \<and> key (endPos (demo \<lparr>row = 15, col = 13\<rparr> \<lparr>row = 15, col = 15\<rparr> {})) \<notin> visitedSet r"
  using end_not_visited[of "demo \<lparr>row = 15, col = 13\<rparr> \<lparr>row = 15, col = 15\<rparr> {}"] search_two_steps
  by auto

text \<open>
  C1, as amended: when the search reports a path and the start differs from the end, the path is
  not empty, its last cell is the end, and its first cell is one of the neighbors of the start
  given by \<open>getNeighbors\<close>; the start itself is never a cell of the path. When the search
  reports no path, the path handed to \<open>renderGrid\<close> is empty.
\<close>

theorem path_ends:
  "\<exists>r g'. findPath g = Some (r, g') \<and>
     (found r \<and> startPos g \<noteq> endPos g \<longrightarrow>
        path r \<noteq> [] \<and> last (path r) = endPos g \<and> startPos g \<notin> set (path r) \<and>
        hd (path r) \<in> set (getNeighbors g (row (startPos g)) (col (startPos g)))) \<and>
     (\<not> found r \<longrightarrow> path r = [])"
proof -
  from findPath_final[of g] obtain s' :: search_state where
    d: "findPath g = Some (\<lparr>found = False, path = [], visitedSet = visited s'\<rparr>,
                           renderGrid g [] (visited s')) \<or>
       (\<exists>pth. linked g (startPos g) pth \<and> last (startPos g # pth) = endPos g \<and>
          startPos g \<notin> set pth \<and>
          findPath g = Some (\<lparr>found = True, path = pth, visitedSet = visited s'\<rparr>,
                             renderGrid g pth (visited s')))"
    by blast
  from d show ?thesis
  proof
    assume "findPath g = Some (\<lparr>found = False, path = [], visitedSet = visited s'\<rparr>,
                           renderGrid g [] (visited s'))"
    then show ?thesis by simp
  next
    assume "\<exists>pth. linked g (startPos g) pth \<and> last (startPos g # pth) = endPos g \<and>
          startPos g \<notin> set pth \<and>
          findPath g = Some (\<lparr>found = True, path = pth, visitedSet = visited s'\<rparr>,
                             renderGrid g pth (visited s'))"
    then obtain pth where p: "linked g (startPos g) pth" "last (startPos g # pth) = endPos g"
      "startPos g \<notin> set pth"
      "findPath g = Some (\<lparr>found = True, path = pth, visitedSet = visited s'\<rparr>,
                             renderGrid g pth (visited s'))" by blast
    have "startPos g \<noteq> endPos g \<Longrightarrow> pth \<noteq> [] \<and> last pth = endPos g"
      using p(2) by (cases pth) auto
    then show ?thesis using p linked_hd[OF p(1)] by auto
  qed
qed

theorem path_ends_witness:
  "\<exists>r g'. findPath (demo \<lparr>row = 15, col = 13\<rparr> \<lparr>row = 15, col = 15\<rparr> {}) = Some (r, g') \<and>
     found r \<and> path r \<noteq> [] \<and> last (path r) = \<lparr>row = 15, col = 15\<rparr> \<and>
     \<lparr>row = 15, col = 13\<rparr> \<notin> set (path r) \<and>
     hd (path r) \<in> set (getNeighbors (demo \<lparr>row = 15, col = 13\<rparr> \<lparr>row = 15, col = 15\<rparr> {}) 15 13)"
  using path_ends[of "demo \<lparr>row = 15, col = 13\<rparr> \<lparr>row = 15, col = 15\<rparr> {}"] search_two_steps
  by (auto simp: demo_def)

text \<open>
  C1 as stated fails: with the start at row 15, column 14 and the end right of it, the search
  finds a path whose first cell is the end, not the start.
\<close>

theorem path_starts_at_start_counterexample:
  "findPath (demo \<lparr>row = 15, col = 14\<rparr> \<lparr>row = 15, col = 15\<rparr> {}) \<noteq> None \<and>
   found (fst (the (findPath (demo \<lparr>row = 15, col = 14\<rparr> \<lparr>row = 15, col = 15\<rparr> {})))) \<and>
   hd (path (fst (the (findPath (demo \<lparr>row = 15, col = 14\<rparr> \<lparr>row = 15, col = 15\<rparr> {}))))) \<noteq>
     startPos (demo \<lparr>row = 15, col = 14\<rparr> \<lparr>row = 15, col = 15\<rparr> {})"
  using search_adjacent by (auto simp: demo_def)

text \<open>
  C3: in the path of every search, each cell and the cell after it are 4-adjacent (their
  Manhattan distance is 1), and no cell of the path is a wall.
\<close>

theorem path_adjacent_no_wall:
  "\<exists>r g'. findPath g = Some (r, g') \<and>
     (\<forall>i. Suc i < length (path r) \<longrightarrow> heuristic (path r ! i) (path r ! Suc i) = 1) \<and>
     (\<forall>p \<in> set (path r). \<not> isWall g (row p) (col p))"
proof -
  from findPath_final[of g] obtain s' :: search_state where
    d: "findPath g = Some (\<lparr>found = False, path = [], visitedSet = visited s'\<rparr>,
                           renderGrid g [] (visited s')) \<or>
       (\<exists>pth. linked g (startPos g) pth \<and>
          findPath g = Some (\<lparr>found = True, path = pth, visitedSet = visited s'\<rparr>,
                             renderGrid g pth (visited s')))"
    by blast
  from d show ?thesis
  proof
    assume "findPath g = Some (\<lparr>found = False, path = [], visitedSet = visited s'\<rparr>,
                           renderGrid g [] (visited s'))"
    then show ?thesis by simp
  next
    assume "\<exists>pth. linked g (startPos g) pth \<and>
          findPath g = Some (\<lparr>found = True, path = pth, visitedSet = visited s'\<rparr>,
                             renderGrid g pth (visited s'))"
    then obtain pth where p: "linked g (startPos g) pth"
      "findPath g = Some (\<lparr>found = True, path = pth, visitedSet = visited s'\<rparr>,
                             renderGrid g pth (visited s'))" by blast
    have "\<forall>i. Suc i < length pth \<longrightarrow> heuristic (pth ! i) (pth ! Suc i) = 1"
      using linked_adjacent[OF p(1)] by (simp add: adjacent_def)
    moreover have "\<forall>q \<in> set pth. \<not> isWall g (row q) (col q)"
      using linked_passable[OF p(1)] by (simp add: passable_def)
    ultimately show ?thesis using p(2) by simp
  qed
qed

theorem path_adjacent_no_wall_witness:
  "\<exists>r g'. findPath (demo \<lparr>row = 15, col = 13\<rparr> \<lparr>row = 15, col = 15\<rparr> {}) = Some (r, g') \<and>
     Suc 0 < length (path r) \<and> heuristic (path r ! 0) (path r ! Suc 0) = 1 \<and>
     \<lparr>row = 15, col = 14\<rparr> \<in> set (path r) \<and>
     \<not> isWall (demo \<lparr>row = 15, col = 13\<rparr> \<lparr>row = 15, col = 15\<rparr> {}) 15 14"
proof -
  from path_adjacent_no_wall[of "demo \<lparr>row = 15, col = 13\<rparr> \<lparr>row = 15, col = 15\<rparr> {}"]
  obtain r g' where r: "findPath (demo \<lparr>row = 15, col = 13\<rparr> \<lparr>row = 15, col = 15\<rparr> {}) = Some (r, g')"
    and a: "\<forall>i. Suc i < length (path r) \<longrightarrow> heuristic (path r ! i) (path r ! Suc i) = 1"
    and w: "\<forall>p \<in> set (path r). \<not> isWall (demo \<lparr>row = 15, col = 13\<rparr> \<lparr>row = 15, col = 15\<rparr> {}) (row p) (col p)"
    by blast
  have p: "path r = [\<lparr>row = 15, col = 14\<rparr>, \<lparr>row = 15, col = 15\<rparr>]"
    using r search_two_steps by auto
  have "Suc 0 < length (path r)" using p by simp
  moreover from a this have "heuristic (path r ! 0) (path r ! Suc 0) = 1" by blast
  moreover have "\<lparr>row = 15, col = 14\<rparr> \<in> set (path r)" using p by simp
  moreover from w this have "\<not> isWall (demo \<lparr>row = 15, col = 13\<rparr> \<lparr>row = 15, col = 15\<rparr> {}) 15 14"
    by fastforce
  ultimately show ?thesis using r by blast
qed

text \<open>
  C5: when the start is within the bounds of the grid and is not a wall, no cell of the visited
  set is a wall and none lies outside the bounds.
\<close>

theorem visited_passable:
  assumes "0 \<le> row (startPos g)" and "row (startPos g) < rows g"
    and "0 \<le> col (startPos g)" and "col (startPos g) < cols g"
    and "\<not> isWall g (row (startPos g)) (col (startPos g))"
  shows "\<exists>r g'. findPath g = Some (r, g') \<and>
     (\<forall>k \<in> visitedSet r. \<not> isWall g (fst k) (snd k) \<and>
        0 \<le> fst k \<and> fst k < rows g \<and> 0 \<le> snd k \<and> snd k < cols g)"
proof -
  from findPath_final[of g] obtain s' :: search_state and r g' where i: "loop_inv g s'"
    and r: "findPath g = Some (r, g')" "visitedSet r = visited s'"
    by fastforce
  have s: "passable g (startPos g)" using assms by (simp add: passable_def)
  have "passable g (unkey k)" if "k \<in> visited s'" for k
    using reachable_passable[OF visited_reachable[OF i that] s] .
  then show ?thesis using r by (auto simp: passable_def unkey_def)
qed

theorem visited_passable_witness:
  "\<exists>r g'. findPath (demo \<lparr>row = 15, col = 13\<rparr> \<lparr>row = 15, col = 15\<rparr> {(14, 13)}) = Some (r, g') \<and>
     (14, 13) \<notin> visitedSet r \<and> (20, 13) \<notin> visitedSet r"
proof -
  have "\<exists>r g'. findPath (demo \<lparr>row = 15, col = 13\<rparr> \<lparr>row = 15, col = 15\<rparr> {(14, 13)}) = Some (r, g') \<and>
     (\<forall>k \<in> visitedSet r. \<not> isWall (demo \<lparr>row = 15, col = 13\<rparr> \<lparr>row = 15, col = 15\<rparr> {(14, 13)}) (fst k) (snd k) \<and>
        0 \<le> fst k \<and> fst k < rows (demo \<lparr>row = 15, col = 13\<rparr> \<lparr>row = 15, col = 15\<rparr> {(14, 13)}) \<and> 0 \<le> snd k \<and>
        snd k < cols (demo \<lparr>row = 15, col = 13\<rparr> \<lparr>row = 15, col = 15\<rparr> {(14, 13)}))"
    by (rule visited_passable) (simp_all add: demo_def isWall_def)
  then show ?thesis by (fastforce simp: demo_def isWall_def)
qed

text \<open>
  C8, as amended: when the start equals the end, the search reports a path, and that path is
  empty; no cell has been visited.
\<close>

theorem same_start_end:
  "startPos g = endPos g \<Longrightarrow>
   \<exists>g'. findPath g = Some (\<lparr>found = True, path = [], visitedSet = {}\<rparr>, g')"
  unfolding findPath_def initState_def
  by (subst searchLoop.simps, subst reconstruct.simps) simp

theorem same_start_end_witness:
  "\<exists>g'. findPath (demo \<lparr>row = 5, col = 5\<rparr> \<lparr>row = 5, col = 5\<rparr> {}) =
     Some (\<lparr>found = True, path = [], visitedSet = {}\<rparr>, g')"
  by (rule same_start_end) (simp add: demo_def)

text \<open>
  C8 as stated fails: with the start and the end both at row 5, column 5, the path is not the
  one-cell path holding the start.
\<close>

theorem same_start_end_counterexample:
  "findPath (demo \<lparr>row = 5, col = 5\<rparr> \<lparr>row = 5, col = 5\<rparr> {}) \<noteq> None \<and>
   path (fst (the (findPath (demo \<lparr>row = 5, col = 5\<rparr> \<lparr>row = 5, col = 5\<rparr> {})))) \<noteq>
     [startPos (demo \<lparr>row = 5, col = 5\<rparr> \<lparr>row = 5, col = 5\<rparr> {})]"
  using search_same by auto

lemma unreachable_end_reachable:
  assumes "endPos g \<notin> reachable g"
  shows "\<exists>r g'. findPath g = Some (r, g') \<and> \<not> found r \<and> visitedSet r = key ` reachable g"
proof -
  from findPath_final[of g] obtain s' :: search_state where i: "loop_inv g s'" and
    d: "(openSet s' = [] \<and>
         findPath g = Some (\<lparr>found = False, path = [], visitedSet = visited s'\<rparr>,
                           renderGrid g [] (visited s'))) \<or>
        (\<exists>p ps j. openSet s' = p # ps \<and> lowest (fScore s') ps p 0 1 = (endPos g, j))"
    by blast
  have io: "inv_open g s'" and ir: "inv_reach g s'"
    using i by (simp_all add: loop_inv_def inv_inner_def)
  from d show ?thesis
  proof
    assume e: "openSet s' = [] \<and>
         findPath g = Some (\<lparr>found = False, path = [], visitedSet = visited s'\<rparr>,
                           renderGrid g [] (visited s'))"
    have v: "k \<in> visited s' \<longleftrightarrow> gScore s' k \<noteq> None" for k
      using io e unfolding inv_open_def by (cases k) auto
    have "visited s' = key ` reachable g"
    proof (intro set_eqI iffI)
      fix k assume "k \<in> visited s'"
      then have "unkey k \<in> reachable g" using visited_reachable[OF i] by blast
      then have "key (unkey k) \<in> key ` reachable g" by (rule imageI)
      then show "k \<in> key ` reachable g" by simp
    next
      fix k assume "k \<in> key ` reachable g"
      then obtain p where "p \<in> reachable g" "k = key p" by blast
      then show "k \<in> visited s'" using reachable_scored[OF i] e v by blast
    qed
    then show ?thesis using e by simp
  next
    assume "\<exists>p ps j. openSet s' = p # ps \<and> lowest (fScore s') ps p 0 1 = (endPos g, j)"
    then obtain p ps j where o: "openSet s' = p # ps" "lowest (fScore s') ps p 0 1 = (endPos g, j)"
      by blast
    have "endPos g \<in> set (openSet s')" using lowest_openSet[OF o(2)] o(1) by (metis nth_mem)
    then have "gScore s' (key (endPos g)) \<noteq> None" using io unfolding inv_open_def by blast
    then have "unkey (key (endPos g)) \<in> reachable g" using ir unfolding inv_reach_def by blast
    then show ?thesis using assms by simp
  qed
qed

lemma enclosed_corner:
  "p \<in> connected (demo \<lparr>row = 5, col = 5\<rparr> \<lparr>row = 0, col = 0\<rparr> {(0, 1), (1, 0)}) \<Longrightarrow>
   p \<noteq> \<lparr>row = 0, col = 0\<rparr> \<and>
   (p = \<lparr>row = 5, col = 5\<rparr> \<or> (0 \<le> row p \<and> 0 \<le> col p \<and> (row p, col p) \<noteq> (0, 1) \<and> (row p, col p) \<noteq> (1, 0)))"
proof (induction rule: connected.induct)
  case connected_start
  show ?case by (simp add: demo_def)
next
  case (connected_step p n)
  have n: "0 \<le> row n" "0 \<le> col n" "(row n, col n) \<noteq> (0, 1)" "(row n, col n) \<noteq> (1, 0)"
    using connected_step.hyps by (auto simp: demo_def)
  have "n \<noteq> \<lparr>row = 0, col = 0\<rparr>"
  proof
    assume z: "n = \<lparr>row = 0, col = 0\<rparr>"
    then have "\<bar>row p\<bar> + \<bar>col p\<bar> = 1" using connected_step.hyps(2) by simp
    moreover have "p \<noteq> \<lparr>row = 5, col = 5\<rparr>" using calculation by auto
    ultimately have "0 \<le> row p" "0 \<le> col p" "(row p, col p) \<noteq> (0, 1)" "(row p, col p) \<noteq> (1, 0)"
      using connected_step.IH by auto
    with \<open>\<bar>row p\<bar> + \<bar>col p\<bar> = 1\<close> show False by auto
  qed
  with n show ?case by simp
qed

text \<open>
  C4: when no obstacle-free 4-connected route leads from the start to the end (every step of
  a route goes to a cell at Manhattan distance 1, within the bounds, that is not a wall), as
  when walls enclose the end, the search reports no path, and its visited set is the set of
  all cells to which such routes lead from the start.
\<close>

theorem unreachable_end:
  assumes "endPos g \<notin> connected g"
  shows "\<exists>r g'. findPath g = Some (r, g') \<and> \<not> found r \<and>
           visitedSet r = (\<lambda>p. (row p, col p)) ` connected g"
proof -
  have k: "(\<lambda>p. (row p, col p)) = key" by (rule ext) (simp add: key_def)
  from assms have "endPos g \<notin> reachable g" by (simp add: connected_eq_reachable)
  from unreachable_end_reachable[OF this] show ?thesis
    unfolding k connected_eq_reachable .
qed

theorem unreachable_end_witness:
  "endPos (demo \<lparr>row = 5, col = 5\<rparr> \<lparr>row = 0, col = 0\<rparr> {(0, 1), (1, 0)})
     \<notin> connected (demo \<lparr>row = 5, col = 5\<rparr> \<lparr>row = 0, col = 0\<rparr> {(0, 1), (1, 0)}) \<and>
   (\<exists>r g'. findPath (demo \<lparr>row = 5, col = 5\<rparr> \<lparr>row = 0, col = 0\<rparr> {(0, 1), (1, 0)}) = Some (r, g') \<and>
      \<not> found r \<and> (5, 5) \<in> visitedSet r \<and> (0, 0) \<notin> visitedSet r \<and>
      visitedSet r =
        (\<lambda>p. (row p, col p)) ` connected (demo \<lparr>row = 5, col = 5\<rparr> \<lparr>row = 0, col = 0\<rparr> {(0, 1), (1, 0)}))"
proof -
  let ?G = "demo \<lparr>row = 5, col = 5\<rparr> \<lparr>row = 0, col = 0\<rparr> {(0, 1), (1, 0)}"
  have e: "endPos ?G = \<lparr>row = 0, col = 0\<rparr>" and s: "startPos ?G = \<lparr>row = 5, col = 5\<rparr>"
    by (simp_all add: demo_def)
  have h: "endPos ?G \<notin> connected ?G"
    using enclosed_corner[of "\<lparr>row = 0, col = 0\<rparr>"] unfolding e by blast
  from unreachable_end[OF h] obtain r g' where r: "findPath ?G = Some (r, g')" "\<not> found r"
    "visitedSet r = (\<lambda>p. (row p, col p)) ` connected ?G" by blast
  have "\<lparr>row = 5, col = 5\<rparr> \<in> connected ?G" using connected_start[of ?G] unfolding s .
  then have "(5, 5) \<in> visitedSet r" unfolding r(3) by force
  moreover have "(0, 0) \<notin> visitedSet r"
  proof
    assume "(0, 0) \<in> visitedSet r"
    then obtain p where p: "p \<in> connected ?G" "row p = 0" "col p = 0" unfolding r(3) by auto
    have "p = \<lparr>row = 0, col = 0\<rparr>" using p(2,3) by (cases p) simp
    with enclosed_corner[OF p(1)] show False by blast
  qed
  ultimately show ?thesis using h r by blast
qed

text \<open>
  C6: a second call of \<open>findPath\<close> on the object left by the first gives the same path and the
  same visited set (and leaves the object as it is); the result of the search depends on the
  dimensions, the walls, the start and the end only; and the scan of the open set selects the
  first cell among those with the lowest \<open>fScore\<close>: no cell of the open set has a lower one,
  and every cell before the selected one has a higher one.
\<close>

theorem search_deterministic:
  "(\<exists>r g1. findPath g = Some (r, g1) \<and> findPath g1 = Some (r, g1)) \<and>
   (rows g' = rows g \<and> cols g' = cols g \<and> walls g' = walls g \<and> startPos g' = startPos g \<and>
    endPos g' = endPos g \<longrightarrow> map_option fst (findPath g') = map_option fst (findPath g)) \<and>
   ((\<forall>q \<in> set (p # ps). get fS (key q) \<noteq> NaN) \<and> lowest fS ps p 0 1 = (c, j) \<longrightarrow>
      j < length (p # ps) \<and> (p # ps) ! j = c \<and>
      (\<forall>k < length (p # ps). \<not> lt (get fS (key ((p # ps) ! k))) (get fS (key c))) \<and>
      (\<forall>k < j. lt (get fS (key c)) (get fS (key ((p # ps) ! k)))))"
proof (intro conjI impI)
  from findPath_final[of g] obtain r g1 where "findPath g = Some (r, g1)" by blast
  with findPath_rendered(2)[OF this] show "\<exists>r g1. findPath g = Some (r, g1) \<and> findPath g1 = Some (r, g1)"
    by blast
next
  assume "rows g' = rows g \<and> cols g' = cols g \<and> walls g' = walls g \<and> startPos g' = startPos g \<and>
    endPos g' = endPos g"
  then show "map_option fst (findPath g') = map_option fst (findPath g)"
    by (intro findPath_cong) simp_all
next
  assume a: "(\<forall>q \<in> set (p # ps). get fS (key q) \<noteq> NaN) \<and> lowest fS ps p 0 1 = (c, j)"
  show "j < length (p # ps)" "(p # ps) ! j = c" using lowest_openSet a by blast+
  show "\<forall>k < length (p # ps). \<not> lt (get fS (key ((p # ps) ! k))) (get fS (key c))"
    using lowest_openSet_least a nth_mem by blast
  show "\<forall>k < j. lt (get fS (key c)) (get fS (key ((p # ps) ! k)))"
    using lowest_openSet_first a by blast
qed

theorem search_deterministic_witness:
  "(\<exists>r g1. findPath (demo \<lparr>row = 15, col = 13\<rparr> \<lparr>row = 15, col = 15\<rparr> {}) = Some (r, g1) \<and>
      findPath g1 = Some (r, g1)) \<and>
   map_option fst (findPath ((demo \<lparr>row = 15, col = 13\<rparr> \<lparr>row = 15, col = 15\<rparr> {})
                     \<lparr>isDragging := True, dragType := Some DragStart\<rparr>)) =
     map_option fst (findPath (demo \<lparr>row = 15, col = 13\<rparr> \<lparr>row = 15, col = 15\<rparr> {})) \<and>
   lowest [(0, 0) \<mapsto> Num 4, (0, 1) \<mapsto> Num 2, (0, 2) \<mapsto> Num 2]
     [\<lparr>row = 0, col = 1\<rparr>, \<lparr>row = 0, col = 2\<rparr>] \<lparr>row = 0, col = 0\<rparr> 0 1 = (\<lparr>row = 0, col = 1\<rparr>, 1) \<and>
   lt (get [(0, 0) \<mapsto> Num 4, (0, 1) \<mapsto> Num 2, (0, 2) \<mapsto> Num 2] (key \<lparr>row = 0, col = 1\<rparr>))
      (get [(0, 0) \<mapsto> Num 4, (0, 1) \<mapsto> Num 2, (0, 2) \<mapsto> Num 2] (key \<lparr>row = 0, col = 0\<rparr>)) \<and>
   \<not> lt (get [(0, 0) \<mapsto> Num 4, (0, 1) \<mapsto> Num 2, (0, 2) \<mapsto> Num 2] (key \<lparr>row = 0, col = 2\<rparr>))
      (get [(0, 0) \<mapsto> Num 4, (0, 1) \<mapsto> Num 2, (0, 2) \<mapsto> Num 2] (key \<lparr>row = 0, col = 1\<rparr>))"
proof -
  let ?G = "demo \<lparr>row = 15, col = 13\<rparr> \<lparr>row = 15, col = 15\<rparr> {}"
  let ?fS = "[(0, 0) \<mapsto> Num 4, (0, 1) \<mapsto> Num 2, (0, 2) \<mapsto> Num (2::int)]"
  let ?ps = "[\<lparr>row = 0, col = 1\<rparr>, \<lparr>row = 0, col = 2\<rparr>]"
  note t = search_deterministic[of ?G "?G\<lparr>isDragging := True, dragType := Some DragStart\<rparr>"
      "\<lparr>row = 0, col = 0\<rparr>" ?ps ?fS "\<lparr>row = 0, col = 1\<rparr>" 1]
  have l: "lowest ?fS ?ps \<lparr>row = 0, col = 0\<rparr> 0 1 = (\<lparr>row = 0, col = 1\<rparr>, 1)"
    by (simp add: get_def key_def)
  have n: "\<forall>q \<in> set (\<lparr>row = 0, col = 0\<rparr> # ?ps). get ?fS (key q) \<noteq> NaN"
    by (simp add: get_def key_def)
  from t have 1: "\<exists>r g1. findPath ?G = Some (r, g1) \<and> findPath g1 = Some (r, g1)" by blast
  from t have 2: "map_option fst (findPath (?G\<lparr>isDragging := True, dragType := Some DragStart\<rparr>)) =
     map_option fst (findPath ?G)" by simp
  from t l n have "lt (get ?fS (key \<lparr>row = 0, col = 1\<rparr>)) (get ?fS (key ((\<lparr>row = 0, col = 0\<rparr> # ?ps) ! 0)))"
    by blast
  then have "lt (get ?fS (key \<lparr>row = 0, col = 1\<rparr>)) (get ?fS (key \<lparr>row = 0, col = 0\<rparr>))"
    by simp
  moreover have "\<not> lt (get ?fS (key \<lparr>row = 0, col = 2\<rparr>)) (get ?fS (key \<lparr>row = 0, col = 1\<rparr>))"
    by (simp add: get_def key_def)
  ultimately show ?thesis using 1 2 l by simp
qed

lemma toggleWall_flip:
  assumes "\<not> (isStart g r c \<or> isEnd g r c)"
  shows "\<exists>g1. toggleWall g r c = Some g1 \<and>
          walls g1 = (if (r, c) \<in> walls g then walls g - {(r, c)} else insert (r, c) (walls g)) \<and>
          rows g1 = rows g \<and> cols g1 = cols g \<and> startPos g1 = startPos g \<and> endPos g1 = endPos g"
proof -
  let ?g = "if (r, c) \<in> walls g then g\<lparr>walls := walls g - {(r, c)}\<rparr>
            else g\<lparr>walls := insert (r, c) (walls g)\<rparr>"
  from findPath_final[of ?g] obtain res g1 where f: "findPath ?g = Some (res, g1)" by blast
  have g1: "g1 = renderGrid ?g (path res) (visitedSet res)" using findPath_rendered(1)[OF f] .
  have "toggleWall g r c = Some g1" using assms f by (simp add: toggleWall_def Let_def)
  moreover have "walls g1 = (if (r, c) \<in> walls g then walls g - {(r, c)} else insert (r, c) (walls g))"
    "rows g1 = rows g" "cols g1 = cols g" "startPos g1 = startPos g" "endPos g1 = endPos g"
    unfolding g1 renderGrid_other_fields by simp_all
  ultimately show ?thesis by blast
qed

text \<open>
  C7: \<open>toggleWall\<close> leaves the object as it is when the cell is the start or the end; for any
  other cell it flips the membership of the cell in the set of walls and changes neither the
  dimensions nor the start nor the end. Two calls in a row for the same cell give back the set
  of walls, and with it the result of the search that follows.
\<close>

theorem toggleWall_twice:
  "(isStart g r c \<or> isEnd g r c \<longrightarrow> toggleWall g r c = Some g) \<and>
   (\<not> (isStart g r c \<or> isEnd g r c) \<longrightarrow>
      (\<exists>g1. toggleWall g r c = Some g1 \<and>
         walls g1 = (if (r, c) \<in> walls g then walls g - {(r, c)} else insert (r, c) (walls g)) \<and>
         rows g1 = rows g \<and> cols g1 = cols g \<and> startPos g1 = startPos g \<and> endPos g1 = endPos g)) \<and>
   (\<exists>g1 g2. toggleWall g r c = Some g1 \<and> toggleWall g1 r c = Some g2 \<and> walls g2 = walls g \<and>
      map_option fst (findPath g2) = map_option fst (findPath g))"
proof (intro conjI impI)
  assume "isStart g r c \<or> isEnd g r c"
  then show "toggleWall g r c = Some g" by (simp add: toggleWall_def)
next
  assume "\<not> (isStart g r c \<or> isEnd g r c)"
  then show "\<exists>g1. toggleWall g r c = Some g1 \<and>
         walls g1 = (if (r, c) \<in> walls g then walls g - {(r, c)} else insert (r, c) (walls g)) \<and>
         rows g1 = rows g \<and> cols g1 = cols g \<and> startPos g1 = startPos g \<and> endPos g1 = endPos g"
    by (rule toggleWall_flip)
next
  show "\<exists>g1 g2. toggleWall g r c = Some g1 \<and> toggleWall g1 r c = Some g2 \<and> walls g2 = walls g \<and>
      map_option fst (findPath g2) = map_option fst (findPath g)"
  proof (cases "isStart g r c \<or> isEnd g r c")
    case True
    then have "toggleWall g r c = Some g" by (simp add: toggleWall_def)
    then show ?thesis by simp
  next
    case False
    from toggleWall_flip[OF False] obtain g1 where 1: "toggleWall g r c = Some g1"
      "walls g1 = (if (r, c) \<in> walls g then walls g - {(r, c)} else insert (r, c) (walls g))"
      "rows g1 = rows g" "cols g1 = cols g" "startPos g1 = startPos g" "endPos g1 = endPos g"
      by blast
    have "\<not> (isStart g1 r c \<or> isEnd g1 r c)" using False 1(5,6) by (simp add: isStart_def isEnd_def)
    from toggleWall_flip[OF this] obtain g2 where 2: "toggleWall g1 r c = Some g2"
      "walls g2 = (if (r, c) \<in> walls g1 then walls g1 - {(r, c)} else insert (r, c) (walls g1))"
      "rows g2 = rows g1" "cols g2 = cols g1" "startPos g2 = startPos g1" "endPos g2 = endPos g1"
      by blast
    have w: "walls g2 = walls g" using 1(2) 2(2) by auto
    have "map_option fst (findPath g2) = map_option fst (findPath g)"
      using 1 2 w by (intro findPath_cong) simp_all
    with 1(1) 2(1) w show ?thesis by blast
  qed
qed

theorem toggleWall_twice_witness:
  "toggleWall (demo \<lparr>row = 15, col = 13\<rparr> \<lparr>row = 15, col = 15\<rparr> {}) 15 13 =
     Some (demo \<lparr>row = 15, col = 13\<rparr> \<lparr>row = 15, col = 15\<rparr> {}) \<and>
   (\<exists>g1. toggleWall (demo \<lparr>row = 15, col = 13\<rparr> \<lparr>row = 15, col = 15\<rparr> {}) 15 14 = Some g1 \<and>
      walls g1 = {(15, 14)}) \<and>
   (\<exists>g1 g2. toggleWall (demo \<lparr>row = 15, col = 13\<rparr> \<lparr>row = 15, col = 15\<rparr> {}) 15 14 = Some g1 \<and>
      toggleWall g1 15 14 = Some g2 \<and> walls g2 = {} \<and>
      map_option fst (findPath g2) =
      map_option fst (findPath (demo \<lparr>row = 15, col = 13\<rparr> \<lparr>row = 15, col = 15\<rparr> {})))"
proof -
  let ?G = "demo \<lparr>row = 15, col = 13\<rparr> \<lparr>row = 15, col = 15\<rparr> {}"
  have s: "isStart ?G 15 13" by (simp add: isStart_def demo_def)
  have n: "\<not> (isStart ?G 15 14 \<or> isEnd ?G 15 14)" by (simp add: isStart_def isEnd_def demo_def)
  have w: "walls ?G = {}" by (simp add: demo_def)
  from toggleWall_twice[of ?G 15 13] s have 1: "toggleWall ?G 15 13 = Some ?G" by blast
  from toggleWall_twice[of ?G 15 14] n w have 2: "\<exists>g1. toggleWall ?G 15 14 = Some g1 \<and> walls g1 = {(15, 14)}"
    by auto
  from toggleWall_twice[of ?G 15 14] w have 3: "\<exists>g1 g2. toggleWall ?G 15 14 = Some g1 \<and>
      toggleWall g1 15 14 = Some g2 \<and> walls g2 = {} \<and>
      map_option fst (findPath g2) = map_option fst (findPath ?G)"
    by auto
  from 1 2 3 show ?thesis by blast
qed

text \<open>
  C2, as amended: on a grid without walls, with the start and the end within the bounds, the
  search finds a path, and the number of cells of the returned path equals the Manhattan
  distance between the start and the end. The path leaves the start out: it is a walk that
  begins at a neighbor of the start and ends at the end, so that its number of cells is the
  number of steps from the start to the end.
\<close>

theorem no_walls_shortest:
  assumes "walls g = {}"
    and "0 \<le> row (startPos g)" and "row (startPos g) < rows g"
    and "0 \<le> col (startPos g)" and "col (startPos g) < cols g"
    and "0 \<le> row (endPos g)" and "row (endPos g) < rows g"
    and "0 \<le> col (endPos g)" and "col (endPos g) < cols g"
  shows "\<exists>r g'. findPath g = Some (r, g') \<and> found r \<and>
           linked g (startPos g) (path r) \<and> last (startPos g # path r) = endPos g \<and>
           int (length (path r)) = heuristic (startPos g) (endPos g)"
proof -
  have w: "walls g = {}" by fact
  have sb: "passable g (startPos g)" and eb: "passable g (endPos g)"
    using assms by (simp_all add: passable_def isWall_def)
  have b: "heuristic (startPos g) (endPos g) + heuristic (endPos g) (endPos g) =
           heuristic (startPos g) (endPos g)"
    by (simp add: heuristic_def)
  from findPath_final[of g] obtain s' :: search_state where i: "loop_inv g s'" and
    d: "(openSet s' = [] \<and>
        findPath g = Some (\<lparr>found = False, path = [], visitedSet = visited s'\<rparr>,
                           renderGrid g [] (visited s'))) \<or>
       (\<exists>p ps j v pth. openSet s' = p # ps \<and> lowest (fScore s') ps p 0 1 = (endPos g, j) \<and>
          gScore s' (key (endPos g)) = Some (Num v) \<and>
          linked g (startPos g) pth \<and> last (startPos g # pth) = endPos g \<and> int (length pth) \<le> v \<and>
          startPos g \<notin> set pth \<and>
          findPath g = Some (\<lparr>found = True, path = pth, visitedSet = visited s'\<rparr>,
                             renderGrid g pth (visited s')))"
    by blast
  have sc: "inv_scores g s'" and io: "inv_open g s'"
    using i by (simp_all add: loop_inv_def inv_inner_def)
  note oos = open_or_settled[OF i w sb eb b]
  from d show ?thesis
  proof
    assume e: "openSet s' = [] \<and>
        findPath g = Some (\<lparr>found = False, path = [], visitedSet = visited s'\<rparr>,
                           renderGrid g [] (visited s'))"
    with oos have "gScore s' (key (endPos g)) \<noteq> None" by auto
    moreover have "gScore s' k \<noteq> None \<longleftrightarrow> k \<in> key ` set (openSet s') \<or> k \<in> visited s'" for k
      using io unfolding inv_open_def by blast
    ultimately have "key (endPos g) \<in> visited s'" using e by simp
    moreover have "key (endPos g) \<notin> visited s'" using io by (simp add: inv_open_def)
    ultimately show ?thesis by simp
  next
    assume "\<exists>p ps j v pth. openSet s' = p # ps \<and> lowest (fScore s') ps p 0 1 = (endPos g, j) \<and>
          gScore s' (key (endPos g)) = Some (Num v) \<and>
          linked g (startPos g) pth \<and> last (startPos g # pth) = endPos g \<and> int (length pth) \<le> v \<and>
          startPos g \<notin> set pth \<and>
          findPath g = Some (\<lparr>found = True, path = pth, visitedSet = visited s'\<rparr>,
                             renderGrid g pth (visited s'))"
    then obtain p ps j v pth where o: "openSet s' = p # ps"
      and l: "lowest (fScore s') ps p 0 1 = (endPos g, j)"
      and v: "gScore s' (key (endPos g)) = Some (Num v)"
      and pth: "linked g (startPos g) pth" "last (startPos g # pth) = endPos g" "int (length pth) \<le> v"
      and f: "findPath g = Some (\<lparr>found = True, path = pth, visitedSet = visited s'\<rparr>,
                             renderGrid g pth (visited s'))"
      by blast
    have ein: "endPos g \<in> set (openSet s')" using lowest_openSet[OF l] o by (metis nth_mem)
    have fe: "fScore s' (key (endPos g)) = Some (Num v)"
      using sc v unfolding inv_scores_def by (fastforce simp: heuristic_def)
    from oos ein obtain m fm where m: "m \<in> set (openSet s')" "fScore s' (key m) = Some (Num fm)"
      "fm \<le> heuristic (startPos g) (endPos g)"
      by auto
    have "\<not> lt (get (fScore s') (key m)) (get (fScore s') (key (endPos g)))"
      using lowest_openSet_least[OF l] m(1) o by simp
    then have "v \<le> fm" using fe m(2) by (simp add: get_def)
    then have "int (length pth) \<le> heuristic (startPos g) (endPos g)" using pth(3) m(3) by simp
    moreover have "heuristic (startPos g) (endPos g) \<le> int (length pth)"
      using linked_heuristic[OF pth(1)] pth(2) by simp
    ultimately have "int (length pth) = heuristic (startPos g) (endPos g)" by simp
    with f pth(1,2) show ?thesis by (simp del: last.simps)
  qed
qed

theorem no_walls_shortest_witness:
  "\<exists>r g'. findPath (demo \<lparr>row = 5, col = 5\<rparr> \<lparr>row = 15, col = 15\<rparr> {}) = Some (r, g') \<and> found r \<and>
     linked (demo \<lparr>row = 5, col = 5\<rparr> \<lparr>row = 15, col = 15\<rparr> {}) \<lparr>row = 5, col = 5\<rparr> (path r) \<and>
     last (\<lparr>row = 5, col = 5\<rparr> # path r) = \<lparr>row = 15, col = 15\<rparr> \<and>
     length (path r) = 20"
proof -
  have "\<exists>r g'. findPath (demo \<lparr>row = 5, col = 5\<rparr> \<lparr>row = 15, col = 15\<rparr> {}) = Some (r, g') \<and> found r \<and>
     linked (demo \<lparr>row = 5, col = 5\<rparr> \<lparr>row = 15, col = 15\<rparr> {})
       (startPos (demo \<lparr>row = 5, col = 5\<rparr> \<lparr>row = 15, col = 15\<rparr> {})) (path r) \<and>
     last (startPos (demo \<lparr>row = 5, col = 5\<rparr> \<lparr>row = 15, col = 15\<rparr> {}) # path r) =
       endPos (demo \<lparr>row = 5, col = 5\<rparr> \<lparr>row = 15, col = 15\<rparr> {}) \<and>
     int (length (path r)) = heuristic (startPos (demo \<lparr>row = 5, col = 5\<rparr> \<lparr>row = 15, col = 15\<rparr> {}))
       (endPos (demo \<lparr>row = 5, col = 5\<rparr> \<lparr>row = 15, col = 15\<rparr> {}))"
    by (rule no_walls_shortest) (simp_all add: demo_def)
  then show ?thesis by (simp add: demo_def heuristic_def)
qed

text \<open>
  C2 as stated fails: with the start at row 15, column 13 and the end two cells to its right,
  the returned path has two cells and so one edge, while the Manhattan distance is 2.
\<close>

theorem edge_count_counterexample:
  "findPath (demo \<lparr>row = 15, col = 13\<rparr> \<lparr>row = 15, col = 15\<rparr> {}) \<noteq> None \<and>
   path (fst (the (findPath (demo \<lparr>row = 15, col = 13\<rparr> \<lparr>row = 15, col = 15\<rparr> {})))) =
     [\<lparr>row = 15, col = 14\<rparr>, \<lparr>row = 15, col = 15\<rparr>] \<and>
   int (length (path (fst (the (findPath (demo \<lparr>row = 15, col = 13\<rparr> \<lparr>row = 15, col = 15\<rparr> {}))))) - 1) \<noteq>
     heuristic (startPos (demo \<lparr>row = 15, col = 13\<rparr> \<lparr>row = 15, col = 15\<rparr> {}))
               (endPos (demo \<lparr>row = 15, col = 13\<rparr> \<lparr>row = 15, col = 15\<rparr> {}))"
  using search_two_steps by (auto simp: demo_def heuristic_def)

end
